theory Spec2Isabelle
  imports Complex_Main "HOL-Library.Char_ord" "HOL-Library.List_Lexorder"
begin

section \<open>Documentation-freshness auditor and review-date verifier\<close>

text \<open>
  A shallow embedding of \<^verbatim>\<open>.github/scripts/review-docs.js\<close> (the auditor) and of
  \<^verbatim>\<open>.github/scripts/check-review-date.js\<close> (the verifier).

  Conventions of the model.
  \<^item> A JavaScript string is a list of code units; the model takes the code units below
    256 (the type \<^typ>\<open>char\<close>). Among them the line terminators of ECMAScript are
    LF and CR.
  \<^item> A \<^verbatim>\<open>Date\<close> object with a valid time value is that time value: an \<^typ>\<open>int\<close>,
    the milliseconds since 1970-01-01T00:00:00Z. \<^verbatim>\<open>null\<close> and an invalid date
    are written out where the source distinguishes them.
  \<^item> The getters \<^verbatim>\<open>getFullYear\<close>, \<^verbatim>\<open>getMonth\<close> and \<^verbatim>\<open>getDate\<close> read the
    local time zone of the process. The model fixes that zone to UTC, the zone of the
    hosted runners the scripts are written for and the zone the repository's own tests
    assume (\<^verbatim>\<open>formatDate(new Date('2025-03-15'))\<close> is expected to be
    \<^verbatim>\<open>'2025-03-15'\<close>).
\<close>

subsection \<open>Strings and numbers of the runtime\<close>

abbreviation LF :: char where "LF \<equiv> CHR 0x0A"
abbreviation CR :: char where "CR \<equiv> CHR 0x0D"

definition is_line_terminator :: "char \<Rightarrow> bool" where
  "is_line_terminator c = (c = LF \<or> c = CR)"

text \<open>The class \<^verbatim>\<open>\d\<close> of a regular expression without the unicode flag: 0 to 9.\<close>

definition is_digit :: "char \<Rightarrow> bool" where
  "is_digit c = (48 \<le> (of_char c :: nat) \<and> (of_char c :: nat) \<le> 57)"

definition digit_val :: "char \<Rightarrow> int" where
  "digit_val c = int (of_char c) - 48"

definition digit_char :: "nat \<Rightarrow> char" where
  "digit_char n = char_of (48 + n)"

text \<open>\<^verbatim>\<open>Number(s)\<close> for a string of decimal digits.\<close>

definition Number_of :: "string \<Rightarrow> int" where
  "Number_of s = foldl (\<lambda>a c. 10 * a + digit_val c) 0 s"

text \<open>\<^verbatim>\<open>String(n)\<close> for an integer: decimal digits, a minus sign when negative.\<close>

function nat_to_string :: "nat \<Rightarrow> string" where
  "nat_to_string n =
     (if n < 10 then [digit_char n] else nat_to_string (n div 10) @ [digit_char (n mod 10)])"
  by pat_completeness auto
termination
  by (relation "measure id") auto

declare nat_to_string.simps [simp del]

definition String_of :: "int \<Rightarrow> string" where
  "String_of i = (if i < 0 then CHR ''-'' # nat_to_string (nat (- i)) else nat_to_string (nat i))"

definition padStart :: "nat \<Rightarrow> char \<Rightarrow> string \<Rightarrow> string" where
  "padStart n c s = replicate (n - length s) c @ s"

text \<open>\<^verbatim>\<open>s.split(sep)\<close> for a separator of one character.\<close>

fun split_on :: "char \<Rightarrow> string \<Rightarrow> string list" where
  "split_on sep [] = [[]]"
| "split_on sep (c # cs) =
     (if c = sep then [] # split_on sep cs
      else (case split_on sep cs of
              w # ws \<Rightarrow> (c # w) # ws
            | [] \<Rightarrow> [[c]]))"

text \<open>
  \<^verbatim>\<open>s.trim()\<close> removes white space and line terminators at both ends; among the code
  units below 256 these are TAB, LF, VT, FF, CR, space and the no-break space.
\<close>

definition is_js_space :: "char \<Rightarrow> bool" where
  "is_js_space c =
     (c = CHR 0x09 \<or> c = CHR 0x0A \<or> c = CHR 0x0B \<or> c = CHR 0x0C \<or> c = CHR 0x0D
      \<or> c = CHR 0x20 \<or> c = CHR 0xA0)"

definition trim :: "string \<Rightarrow> string" where
  "trim s = rev (dropWhile is_js_space (rev (dropWhile is_js_space s)))"

text \<open>\<^verbatim>\<open>s.indexOf(c)\<close> for one character; \<open>None\<close> is the result -1.\<close>

fun indexOf :: "char \<Rightarrow> string \<Rightarrow> nat option" where
  "indexOf c [] = None"
| "indexOf c (x # xs) = (if x = c then Some 0 else map_option Suc (indexOf c xs))"

definition startsWith :: "string \<Rightarrow> string \<Rightarrow> bool" where
  "startsWith s p = (take (length p) s = p)"

definition endsWith :: "string \<Rightarrow> string \<Rightarrow> bool" where
  "endsWith s p = (length p \<le> length s \<and> drop (length s - length p) s = p)"

subsection \<open>Dates of the runtime\<close>

text \<open>
  The day and year arithmetic of ECMAScript (section "Time Values and Time Range"):
  \<open>DayFromYear\<close> is the day number of January 1st, the year of a day is the largest
  year whose first day is not after it, the month and the date follow from the day
  within the year. \<open>YearFromDay\<close> computes that largest year from an estimate that is
  wrong by at most one (lemma \<open>YearFromDay_bracket\<close> below).
\<close>

definition msPerDay :: int where
  "msPerDay = 86400000"

definition InLeapYear :: "int \<Rightarrow> int" where
  "InLeapYear y = (if y mod 4 = 0 \<and> (y mod 100 \<noteq> 0 \<or> y mod 400 = 0) then 1 else 0)"

definition DayFromYear :: "int \<Rightarrow> int" where
  "DayFromYear y =
     365 * (y - 1970) + (y - 1969) div 4 - (y - 1901) div 100 + (y - 1601) div 400"

definition YearFromDay :: "int \<Rightarrow> int" where
  "YearFromDay d =
     (let y = 1970 + (400 * d) div 146097
      in if d < DayFromYear y then y - 1
         else if DayFromYear (y + 1) \<le> d then y + 1
         else y)"

text \<open>The day within the year at which month \<open>m\<close> (0 to 11, and 12 for the end) begins.\<close>

definition month_start :: "int \<Rightarrow> int \<Rightarrow> int" where
  "month_start leap m =
     (if m \<le> 0 then 0 else if m = 1 then 31 else if m = 2 then 59 + leap
      else if m = 3 then 90 + leap else if m = 4 then 120 + leap
      else if m = 5 then 151 + leap else if m = 6 then 181 + leap
      else if m = 7 then 212 + leap else if m = 8 then 243 + leap
      else if m = 9 then 273 + leap else if m = 10 then 304 + leap
      else if m = 11 then 334 + leap else 365 + leap)"

definition MonthFromDayWithinYear :: "int \<Rightarrow> int \<Rightarrow> int" where
  "MonthFromDayWithinYear leap dwy =
     (if dwy < 31 then 0 else if dwy < 59 + leap then 1
      else if dwy < 90 + leap then 2 else if dwy < 120 + leap then 3
      else if dwy < 151 + leap then 4 else if dwy < 181 + leap then 5
      else if dwy < 212 + leap then 6 else if dwy < 243 + leap then 7
      else if dwy < 273 + leap then 8 else if dwy < 304 + leap then 9
      else if dwy < 334 + leap then 10 else 11)"

definition Day :: "int \<Rightarrow> int" where
  "Day t = t div msPerDay"

definition getFullYear :: "int \<Rightarrow> int" where
  "getFullYear t = YearFromDay (Day t)"

definition getMonth :: "int \<Rightarrow> int" where
  "getMonth t =
     (let y = YearFromDay (Day t)
      in MonthFromDayWithinYear (InLeapYear y) (Day t - DayFromYear y))"

definition getDate :: "int \<Rightarrow> int" where
  "getDate t =
     (let y = YearFromDay (Day t); dwy = Day t - DayFromYear y
      in dwy - month_start (InLeapYear y) (MonthFromDayWithinYear (InLeapYear y) dwy) + 1)"

text \<open>\<open>MakeDay year month date\<close> with a month index from 0: months beyond the year carry.\<close>

definition MakeDay :: "int \<Rightarrow> int \<Rightarrow> int \<Rightarrow> int" where
  "MakeDay year month date =
     (let ym = year + month div 12; mn = month mod 12
      in DayFromYear ym + month_start (InLeapYear ym) mn + date - 1)"

text \<open>
  \<^verbatim>\<open>new Date(dateString)\<close> for a string of the shape \<^verbatim>\<open>dddd-dd-dd\<close>, the only shape
  the auditor passes. A date-only string is read as UTC. The parser of Node (V8)
  gives an invalid date (\<open>None\<close>) for a month outside 1 to 12 or a day outside 1 to 31,
  and lets a day beyond the end of the month run on into the next month:
  \<^verbatim>\<open>2025-02-30\<close> is March 2nd. (An engine that rejects such a day outright changes
  no result of \<open>getReviewDate\<close>: the date is then refused by the first test of the
  function rather than by the second.)
\<close>

definition Date_of_string :: "string \<Rightarrow> int option" where
  "Date_of_string s =
     (let year = Number_of (take 4 s);
          month = Number_of (take 2 (drop 5 s));
          day = Number_of (take 2 (drop 8 s))
      in if 1 \<le> month \<and> month \<le> 12 \<and> 1 \<le> day \<and> day \<le> 31
         then Some (MakeDay year (month - 1) day * msPerDay)
         else None)"

subsection \<open>Metadata codec of the auditor\<close>

definition formatDate :: "int \<Rightarrow> string" where
  "formatDate date =
     (let year = getFullYear date;
          month = padStart 2 (CHR ''0'') (String_of (getMonth date + 1));
          day = padStart 2 (CHR ''0'') (String_of (getDate date))
      in String_of year @ ''-'' @ month @ ''-'' @ day)"

text \<open>
  The regular expression \<^verbatim>\<open>/^reviewed at (\d{4}-\d{2}-\d{2})/m\<close>. \<open>date_shape\<close> is the
  group, \<open>marker_here\<close> the expression without its anchor, matched at the head of a
  string. With the flag \<^verbatim>\<open>m\<close> the anchor holds at the start of the input and after
  every line terminator: \<open>marker_search bol s\<close> looks for the first match in \<open>s\<close>, where
  \<open>bol\<close> says whether the head of \<open>s\<close> is at the beginning of a line, and returns the
  text before the match, the group and the text after the match.
\<close>

definition date_shape :: "string \<Rightarrow> bool" where
  "date_shape ds =
     (case ds of
        [y1, y2, y3, y4, s1, m1, m2, s2, d1, d2] \<Rightarrow>
          is_digit y1 \<and> is_digit y2 \<and> is_digit y3 \<and> is_digit y4 \<and> s1 = CHR ''-''
          \<and> is_digit m1 \<and> is_digit m2 \<and> s2 = CHR ''-'' \<and> is_digit d1 \<and> is_digit d2
      | _ \<Rightarrow> False)"

definition marker_here :: "string \<Rightarrow> bool" where
  "marker_here s = (take 12 s = ''reviewed at '' \<and> date_shape (take 10 (drop 12 s)))"

fun marker_search :: "bool \<Rightarrow> string \<Rightarrow> (string \<times> string \<times> string) option" where
  "marker_search bol [] = None"
| "marker_search bol (c # cs) =
     (if bol \<and> marker_here (c # cs)
      then Some ([], take 10 (drop 12 (c # cs)), drop 22 (c # cs))
      else map_option (\<lambda>(pre, ds, post). (c # pre, ds, post))
             (marker_search (is_line_terminator c) cs))"

text \<open>
  \<^verbatim>\<open>getReviewDate(content)\<close>: \<open>None\<close> is \<^verbatim>\<open>null\<close>. The group always splits into three
  parts at its two dashes; the last case is there for totality only.
\<close>

definition getReviewDate :: "string \<Rightarrow> int option" where
  "getReviewDate content =
     (case marker_search True content of
        None \<Rightarrow> None
      | Some (pre, dateString, post) \<Rightarrow>
          (case Date_of_string dateString of
             None \<Rightarrow> None
           | Some date \<Rightarrow>
               (case map Number_of (split_on (CHR ''-'') dateString) of
                  [year, month, day] \<Rightarrow>
                    if getFullYear date \<noteq> year \<or> getMonth date + 1 \<noteq> month
                       \<or> getDate date \<noteq> day
                    then None
                    else Some date
                | _ \<Rightarrow> None)))"

text \<open>
  \<^verbatim>\<open>updateReviewDate(content, newDate)\<close>. The test and the replacement use the same
  expression; without the flag \<^verbatim>\<open>g\<close> the replacement rewrites the first match only.
  The new line holds no \<^verbatim>\<open>$\<close>, so it is inserted as it is.
\<close>

definition updateReviewDate :: "string \<Rightarrow> int \<Rightarrow> string" where
  "updateReviewDate content newDate =
     (let dateString = formatDate newDate;
          reviewLine = ''reviewed at '' @ dateString;
          hasReviewLine = (marker_search True content \<noteq> None)
      in if hasReviewLine
         then (case marker_search True content of
                 Some (pre, ds, post) \<Rightarrow> pre @ reviewLine @ post
               | None \<Rightarrow> content)
         else reviewLine @ [LF, LF] @ content)"

subsection \<open>Staleness evaluator\<close>

definition ONE_MONTH_MS :: int where
  "ONE_MONTH_MS = 30 * 24 * 60 * 60 * 1000"

text \<open>
  \<^verbatim>\<open>needsReview(reviewDate)\<close>. The source reads the clock with \<^verbatim>\<open>new Date()\<close>; the
  model takes that reading as the argument \<open>now\<close>. A \<^verbatim>\<open>Date\<close> object is truthy, so
  \<^verbatim>\<open>!reviewDate\<close> holds exactly for \<^verbatim>\<open>null\<close>.
\<close>

definition needsReview :: "int \<Rightarrow> int option \<Rightarrow> bool" where
  "needsReview now reviewDate =
     (case reviewDate of
        None \<Rightarrow> True
      | Some t \<Rightarrow> (let timeDiff = now - t in timeDiff > ONE_MONTH_MS))"

subsection \<open>Rotation cursor\<close>

text \<open>
  The remainder operator \<^verbatim>\<open>%\<close> of JavaScript truncates towards zero: the result has
  the sign of the dividend.
\<close>

definition js_rem :: "int \<Rightarrow> int \<Rightarrow> int" where
  "js_rem a b = sgn a * (\<bar>a\<bar> mod \<bar>b\<bar>)"

text \<open>
  Reading an array at an index that is not one of its positions gives \<^verbatim>\<open>undefined\<close>,
  here \<open>None\<close>.
\<close>

definition js_index :: "'a list \<Rightarrow> int \<Rightarrow> 'a option" where
  "js_index xs i = (if 0 \<le> i \<and> i < int (length xs) then Some (xs ! nat i) else None)"

record selection =
  sel_file :: "string option"
  sel_index :: int

definition selectNextFile :: "string list \<Rightarrow> int \<Rightarrow> selection option" where
  "selectNextFile files lastIndex =
     (if length files = 0 then None
      else (let nextIndex = js_rem (lastIndex + 1) (int (length files))
            in Some \<lparr>sel_file = js_index files nextIndex, sel_index = nextIndex\<rparr>))"

subsection \<open>Assignment selector and duplicate guard\<close>

text \<open>
  \<^verbatim>\<open>selectRandomAssignee(teamMembers)\<close>. \<open>None\<close> is the thrown error. The value of
  \<^verbatim>\<open>Math.random()\<close>, a number from 0 up to but not including 1, is the argument \<open>r\<close>.
  An entry is kept when its trimmed text is not empty (a non-empty string is truthy).
\<close>

definition team_pool :: "string \<Rightarrow> string list" where
  "team_pool teamMembers = filter (\<lambda>m. trim m \<noteq> []) (split_on (CHR '','') teamMembers)"

definition selectRandomAssignee :: "rat \<Rightarrow> string \<Rightarrow> string option" where
  "selectRandomAssignee r teamMembers =
     (let members = team_pool teamMembers
      in if length members = 0 then None
         else (let randomIndex = \<lfloor>r * of_nat (length members)\<rfloor>
               in map_option trim (js_index members randomIndex)))"

text \<open>
  \<^verbatim>\<open>hasExistingPR(filePath)\<close>. The answer of \<^verbatim>\<open>gh pr list\<close> is a list of pull requests,
  each with a number and, possibly, the paths of its files; \<open>None\<close> stands for a command
  or a parse that fails, which the function turns into \<^verbatim>\<open>false\<close>.
\<close>

record pull_request =
  pr_number :: int
  pr_files :: "string list option"

definition hasExistingPR :: "pull_request list option \<Rightarrow> string \<Rightarrow> bool" where
  "hasExistingPR prs filePath =
     (case prs of
        None \<Rightarrow> False
      | Some ps \<Rightarrow>
          list_ex (\<lambda>pr. case pr_files pr of None \<Rightarrow> False | Some fs \<Rightarrow> list_ex (\<lambda>f. f = filePath) fs) ps)"

subsection \<open>Orchestrator\<close>

text \<open>
  What one run of \<^verbatim>\<open>review-docs.js\<close> reads and writes. The world holds the listing of
  the docs directory (\<open>None\<close>: the listing throws), the content of each readable file
  of that directory by name (\<open>None\<close>: reading throws), the \<open>lastIndex\<close> stored in the
  state file (\<open>None\<close>: no file, or one that cannot be read or parsed) and the outputs
  set so far. Writes to a document and to the state file succeed. The environment
  holds \<^verbatim>\<open>TEAM_MEMBERS\<close>, the open pull requests, the clock and the random number; the
  clock is read once for the whole run.
\<close>

record world =
  docs_dir :: "string list option"
  doc_files :: "string \<rightharpoonup> string"
  state_file :: "int option"
  outputs :: "(string \<times> string) list"

record env =
  TEAM_MEMBERS :: "string option"
  open_prs :: "pull_request list option"
  clock :: int
  random :: rat

definition getDocFiles :: "string list \<Rightarrow> string list" where
  "getDocFiles names = sort (filter (\<lambda>file. endsWith file ''.md'') names)"

definition loadState :: "world \<Rightarrow> int" where
  "loadState w = (case state_file w of Some lastIndex \<Rightarrow> lastIndex | None \<Rightarrow> - 1)"

definition saveState :: "int \<Rightarrow> world \<Rightarrow> world" where
  "saveState lastIndex w = w\<lparr>state_file := Some lastIndex\<rparr>"

definition setOutput :: "string \<Rightarrow> string \<Rightarrow> world \<Rightarrow> world" where
  "setOutput name v w = w\<lparr>outputs := outputs w @ [(name, v)]\<rparr>"

text \<open>
  The loop of \<^verbatim>\<open>main\<close>: \<open>scan e files n lastIndex w\<close> runs it with \<open>n\<close> documents left to
  check (\<^verbatim>\<open>files.length - checkedCount\<close>) and the cursor \<open>lastIndex\<close> held in memory, and
  returns the exit code with the world. Code 1 is a thrown error, caught at the end of
  \<^verbatim>\<open>main\<close> by \<^verbatim>\<open>process.exit(1)\<close>; what was written before the throw stays written.
\<close>

fun scan :: "env \<Rightarrow> string list \<Rightarrow> nat \<Rightarrow> int \<Rightarrow> world \<Rightarrow> int \<times> world" where
  "scan e files 0 lastIndex w =
     (0, saveState lastIndex (setOutput ''needs_review'' ''false'' w))"
| "scan e files (Suc n) lastIndex w =
     (case selectNextFile files lastIndex of
        None \<Rightarrow> (0, setOutput ''needs_review'' ''false'' w)
      | Some selection \<Rightarrow>
          (case sel_file selection of
             None \<Rightarrow> (1, w)
           | Some file \<Rightarrow>
               (case doc_files w file of
                  None \<Rightarrow> (1, w)
                | Some content \<Rightarrow>
                    (let reviewDate = getReviewDate content
                     in if needsReview (clock e) reviewDate
                        then (let relativeFilePath = ''docs/'' @ file
                              in if hasExistingPR (open_prs e) relativeFilePath
                                 then scan e files n (sel_index selection) w
                                 else (let today = clock e;
                                           updatedContent = updateReviewDate content today;
                                           w1 = w\<lparr>doc_files := (doc_files w)(file \<mapsto> updatedContent)\<rparr>
                                       in case TEAM_MEMBERS e of
                                            None \<Rightarrow> (1, w1)
                                          | Some teamMembers \<Rightarrow>
                                              if teamMembers = [] then (1, w1)
                                              else (case selectRandomAssignee (random e) teamMembers of
                                                      None \<Rightarrow> (1, w1)
                                                    | Some assignee \<Rightarrow>
                                                        (0, saveState (sel_index selection)
                                                              (setOutput ''assignee'' assignee
                                                                (setOutput ''file_path'' relativeFilePath
                                                                  (setOutput ''needs_review'' ''true'' w1)))))))
                        else scan e files n (sel_index selection) w))))"

definition review_docs_main :: "env \<Rightarrow> world \<Rightarrow> int \<times> world" where
  "review_docs_main e w =
     (case docs_dir w of
        None \<Rightarrow> (1, w)
      | Some names \<Rightarrow>
          (let files = getDocFiles names
           in if length files = 0 then (0, setOutput ''needs_review'' ''false'' w)
              else scan e files (length files) (loadState w) w))"

subsection \<open>Verifier\<close>

text \<open>
  \<^verbatim>\<open>parseFrontMatter(content)\<close> of \<^verbatim>\<open>check-review-date.js\<close>. The expression
  \<^verbatim>\<open>/^---\n([\s\S]*?)\n---/\<close> has no flag: it matches at the start of the content only,
  and its lazy group is the shortest text followed by a line feed and three dashes
  (\<open>frontMatter_group\<close>). The object \<^verbatim>\<open>frontMatter\<close> is the list of its own properties,
  kept in order of creation (no property below depends on the order): assigning to a
  key it has replaces the value in place. Assigning a string to the key
  \<^verbatim>\<open>__proto__\<close> creates no property.
\<close>

fun frontMatter_group :: "string \<Rightarrow> string option" where
  "frontMatter_group [] = None"
| "frontMatter_group (c # cs) =
     (if take 4 (c # cs) = LF # ''---'' then Some []
      else map_option ((#) c) (frontMatter_group cs))"

definition frontMatterRegex :: "string \<Rightarrow> string option" where
  "frontMatterRegex content =
     (if take 4 content = ''---'' @ [LF] then frontMatter_group (drop 4 content) else None)"

fun assign :: "string \<Rightarrow> string \<Rightarrow> (string \<times> string) list \<Rightarrow> (string \<times> string) list" where
  "assign k v [] = [(k, v)]"
| "assign k v (p # ps) = (if fst p = k then (k, v) # ps else p # assign k v ps)"

definition parse_line :: "(string \<times> string) list \<Rightarrow> string \<Rightarrow> (string \<times> string) list" where
  "parse_line frontMatter line =
     (case indexOf (CHR '':'') line of
        None \<Rightarrow> frontMatter
      | Some colonIndex \<Rightarrow>
          if colonIndex > 0
          then (let key = trim (take colonIndex line);
                    v = trim (drop (colonIndex + 1) line)
                in if key = ''__proto__'' then frontMatter else assign key v frontMatter)
          else frontMatter)"

record parsed =
  frontMatter :: "(string \<times> string) list"
  hasFrontMatter :: bool

definition parseFrontMatter :: "string \<Rightarrow> parsed" where
  "parseFrontMatter content =
     (case frontMatterRegex content of
        Some frontMatterText \<Rightarrow>
          \<lparr>frontMatter = foldl parse_line [] (split_on LF frontMatterText),
           hasFrontMatter = True\<rparr>
      | None \<Rightarrow> \<lparr>frontMatter = [], hasFrontMatter = False\<rparr>)"

text \<open>
  \<^verbatim>\<open>getModifiedMarkdownFiles(baseBranch)\<close>: the argument is the output of the two git
  commands, \<open>None\<close> when one of them fails.
\<close>

definition getModifiedMarkdownFiles :: "string option \<Rightarrow> string list" where
  "getModifiedMarkdownFiles diff =
     (case diff of
        None \<Rightarrow> []
      | Some output \<Rightarrow>
          filter (\<lambda>file. trim file \<noteq> [])
            (filter (\<lambda>file. startsWith file ''docs/'' \<and> endsWith file ''.md'')
               (split_on LF output)))"

text \<open>
  The loop of the verifier's \<^verbatim>\<open>main\<close>. Each path gets the line the source prints for
  it, here a \<open>diagnostic\<close>; the three lines with a cross also set \<^verbatim>\<open>hasErrors\<close>. The
  file system is the content of each path that exists. \<^verbatim>\<open>!frontMatter.reviewed_at\<close>
  holds for a missing field and for an empty value.
\<close>

datatype diagnostic =
  FileDeleted | MissingFrontMatter | MissingReviewedAt | StaleOrMismatchedDate | ReviewedToday

definition check_file ::
  "(string \<rightharpoonup> string) \<Rightarrow> string \<Rightarrow> bool \<times> (string \<times> diagnostic) list \<Rightarrow> string
     \<Rightarrow> bool \<times> (string \<times> diagnostic) list" where
  "check_file fs today st filePath =
     (let hasErrors = fst st; report = snd st
      in case fs filePath of
           None \<Rightarrow> (hasErrors, report @ [(filePath, FileDeleted)])
         | Some content \<Rightarrow>
             (let r = parseFrontMatter content
              in if \<not> hasFrontMatter r then (True, report @ [(filePath, MissingFrontMatter)])
                 else (case map_of (frontMatter r) ''reviewed_at'' of
                         None \<Rightarrow> (True, report @ [(filePath, MissingReviewedAt)])
                       | Some reviewed_at \<Rightarrow>
                           if reviewed_at = [] then (True, report @ [(filePath, MissingReviewedAt)])
                           else if reviewed_at \<noteq> today
                           then (True, report @ [(filePath, StaleOrMismatchedDate)])
                           else (hasErrors, report @ [(filePath, ReviewedToday)]))))"

text \<open>
  \<^verbatim>\<open>main\<close> of the verifier, in two parts: \<open>check_modified\<close> is its body from the list of
  modified files on, with today's literal as an argument; \<open>check_review_date_main\<close>
  computes that literal from the clock and the list from the git output. The result
  is the exit code with the diagnostics printed.
\<close>

definition check_modified ::
  "(string \<rightharpoonup> string) \<Rightarrow> string \<Rightarrow> string list \<Rightarrow> int \<times> (string \<times> diagnostic) list" where
  "check_modified fs today modifiedFiles =
     (if length modifiedFiles = 0 then (0, [])
      else (let st = foldl (check_file fs today) (False, []) modifiedFiles
            in (if fst st then 1 else 0, snd st)))"

definition check_review_date_main ::
  "(string \<rightharpoonup> string) \<Rightarrow> int \<Rightarrow> string option \<Rightarrow> int \<times> (string \<times> diagnostic) list" where
  "check_review_date_main fs now_ms diff =
     (let today = formatDate now_ms;
          modifiedFiles = getModifiedMarkdownFiles diff
      in check_modified fs today modifiedFiles)"

subsection \<open>Calendar dates\<close>

text \<open>
  The reference notions the properties are stated with: the length of a month, a valid
  calendar date (month 1 to 12, day 1 to the length of the month), and the time value
  of its midnight in UTC (\<^verbatim>\<open>Date.UTC(y, m - 1, d)\<close>).
\<close>

definition days_in_month :: "int \<Rightarrow> int \<Rightarrow> int" where
  "days_in_month y m =
     (if m = 2 then 28 + InLeapYear y
      else if m = 4 \<or> m = 6 \<or> m = 9 \<or> m = 11 then 30 else 31)"

definition valid_date :: "int \<Rightarrow> int \<Rightarrow> int \<Rightarrow> bool" where
  "valid_date y m d = (1 \<le> m \<and> m \<le> 12 \<and> 1 \<le> d \<and> d \<le> days_in_month y m)"

definition date_utc :: "int \<Rightarrow> int \<Rightarrow> int \<Rightarrow> int" where
  "date_utc y m d = MakeDay y (m - 1) d * msPerDay"

text \<open>
  The fields of a literal of the shape \<^verbatim>\<open>dddd-dd-dd\<close>, the literals that name a valid
  calendar date, and the literal \<^verbatim>\<open>yyyy-mm-dd\<close> of a date with a year from 0 to 9999.
\<close>

definition literal_year :: "string \<Rightarrow> int" where
  "literal_year ds = Number_of (take 4 ds)"

definition literal_month :: "string \<Rightarrow> int" where
  "literal_month ds = Number_of (take 2 (drop 5 ds))"

definition literal_day :: "string \<Rightarrow> int" where
  "literal_day ds = Number_of (take 2 (drop 8 ds))"

definition valid_literal :: "string \<Rightarrow> bool" where
  "valid_literal ds = valid_date (literal_year ds) (literal_month ds) (literal_day ds)"

definition iso_date :: "int \<Rightarrow> int \<Rightarrow> int \<Rightarrow> string" where
  "iso_date y m d =
     padStart 4 (CHR ''0'') (String_of y) @ ''-'' @ padStart 2 (CHR ''0'') (String_of m)
       @ ''-'' @ padStart 2 (CHR ''0'') (String_of d)"

subsection \<open>Review lines of the raw text\<close>

text \<open>
  The review line, stated on the text itself and not through the search of the
  auditor: a position at the start of the content or right after a line terminator,
  the words \<^verbatim>\<open>reviewed at \<close> and ten characters of the shape \<^verbatim>\<open>dddd-dd-dd\<close> (digits
  and two dashes). What follows the ten characters is not constrained. The first
  review line of a content is the one that starts earliest. \<open>at_start\<close> is the
  position test for a search that is already under way: \<open>bol\<close> tells whether the
  text searched begins at a line start.
\<close>

definition at_line_start :: "string \<Rightarrow> bool" where
  "at_line_start pre = (pre = [] \<or> last pre = LF \<or> last pre = CR)"

definition looks_like_date :: "string \<Rightarrow> bool" where
  "looks_like_date ds =
     (length ds = 10 \<and> ds ! 4 = CHR ''-'' \<and> ds ! 7 = CHR ''-''
      \<and> (\<forall>i \<in> {0, 1, 2, 3, 5, 6, 8, 9}. ds ! i \<in> set ''0123456789''))"

definition review_line :: "string \<Rightarrow> string \<Rightarrow> string \<Rightarrow> string \<Rightarrow> bool" where
  "review_line content pre ds post =
     (content = pre @ ''reviewed at '' @ ds @ post \<and> at_line_start pre \<and> looks_like_date ds)"

definition first_review_line :: "string \<Rightarrow> string \<Rightarrow> string \<Rightarrow> string \<Rightarrow> bool" where
  "first_review_line content pre ds post =
     (review_line content pre ds post
      \<and> (\<forall>pre' ds' post'. review_line content pre' ds' post' \<longrightarrow> length pre \<le> length pre'))"

definition at_start :: "bool \<Rightarrow> string \<Rightarrow> bool" where
  "at_start bol pre = (if pre = [] then bol else is_line_terminator (last pre))"

subsection \<open>Reference notions for the orchestrator and the verifier\<close>


definition is_problem :: "diagnostic \<Rightarrow> bool" where
  "is_problem d = (d = MissingFrontMatter \<or> d = MissingReviewedAt \<or> d = StaleOrMismatchedDate)"

text \<open>
  The diagnosis of a path, stated on the text of the file and not through the parser
  of the verifier. A content has front matter when it is the line \<^verbatim>\<open>---\<close>, some text,
  a line feed and \<^verbatim>\<open>---\<close>, followed by anything; its block is the shortest such text,
  and the lines of the block are the pieces between its line feeds (\<open>join_lines\<close>
  puts them together again). A line gives the field \<open>k\<close> the value \<open>v\<close> when it holds
  a colon after at least one character, \<open>k\<close> is what stands before the first colon
  and \<open>v\<close> what stands after it, both trimmed. Among the lines of a block that give
  the same field, the last one counts. The diagnosis of a path: a deleted file when
  there is no file; \<open>MissingFrontMatter\<close> when the content has no front matter;
  \<open>MissingReviewedAt\<close> when no line gives \<^verbatim>\<open>reviewed_at\<close> a value that is not empty;
  \<open>ReviewedToday\<close> when the value is today's literal; \<open>StaleOrMismatchedDate\<close> for
  any other value. The example files hold one document for each of the last four.
\<close>

fun join_lines :: "string list \<Rightarrow> string" where
  "join_lines [] = []"
| "join_lines [l] = l"
| "join_lines (l # m # ls) = l @ LF # join_lines (m # ls)"

definition has_front_matter :: "string \<Rightarrow> bool" where
  "has_front_matter content =
     (\<exists>g rest. content = ''---'' @ [LF] @ g @ [LF] @ ''---'' @ rest)"

definition front_matter_block :: "string \<Rightarrow> string \<Rightarrow> bool" where
  "front_matter_block content g =
     ((\<exists>rest. content = ''---'' @ [LF] @ g @ [LF] @ ''---'' @ rest)
      \<and> (\<forall>g' rest'. content = ''---'' @ [LF] @ g' @ [LF] @ ''---'' @ rest' \<longrightarrow>
            length g \<le> length g'))"

definition line_field :: "string \<Rightarrow> string \<Rightarrow> string \<Rightarrow> bool" where
  "line_field line k v =
     (\<exists>a b. line = a @ CHR '':'' # b \<and> a \<noteq> [] \<and> CHR '':'' \<notin> set a \<and> k = trim a \<and> v = trim b)"

definition block_field :: "string list \<Rightarrow> string \<Rightarrow> string \<Rightarrow> bool" where
  "block_field ls k v =
     (\<exists>pre line post. ls = pre @ line # post \<and> line_field line k v
        \<and> (\<forall>l \<in> set post. \<forall>v'. \<not> line_field l k v'))"

definition reviewed_at_value :: "string \<Rightarrow> string \<Rightarrow> bool" where
  "reviewed_at_value content v =
     (\<exists>g ls. front_matter_block content g \<and> ls \<noteq> [] \<and> g = join_lines ls
        \<and> (\<forall>l \<in> set ls. LF \<notin> set l) \<and> block_field ls ''reviewed_at'' v)"

definition diagnosis :: "(string \<rightharpoonup> string) \<Rightarrow> string \<Rightarrow> string \<Rightarrow> diagnostic \<Rightarrow> bool" where
  "diagnosis fs today p d =
     (case fs p of
        None \<Rightarrow> d = FileDeleted
      | Some content \<Rightarrow>
          if \<not> has_front_matter content then d = MissingFrontMatter
          else if \<not> (\<exists>v. v \<noteq> [] \<and> reviewed_at_value content v) then d = MissingReviewedAt
          else if reviewed_at_value content today then d = ReviewedToday
          else d = StaleOrMismatchedDate)"

definition example_files :: "string \<rightharpoonup> string" where
  "example_files =
     [''docs/plain.md'' \<mapsto> ''# Title'',
      ''docs/nofield.md'' \<mapsto> ''---'' @ [LF] @ ''author: x'' @ [LF] @ ''---'' @ [LF],
      ''docs/stale.md'' \<mapsto> ''---'' @ [LF] @ ''reviewed_at: 2025-05-30'' @ [LF] @ ''---'' @ [LF],
      ''docs/today.md'' \<mapsto> ''---'' @ [LF] @ ''reviewed_at:  2025-06-01 '' @ [LF] @ ''---'' @ [LF]]"




definition example_env :: env where
  "example_env =
     \<lparr>TEAM_MEMBERS = Some ''alice, bob'', open_prs = Some [], clock = 1748736000000,
      random = 1 / 2\<rparr>"

definition example_world :: world where
  "example_world =
     \<lparr>docs_dir = Some [''b.md'', ''notes.txt'', ''a.md'', ''c.md''],
      doc_files = [''a.md'' \<mapsto> ''# A'',
                   ''b.md'' \<mapsto> ''reviewed at 2025-05-30'' @ [LF, LF] @ ''# B'',
                   ''c.md'' \<mapsto> ''reviewed at 2025-01-01'' @ [LF, LF] @ ''# C''],
      state_file = None, outputs = []\<rparr>"

section \<open>Properties\<close>

subsection \<open>Day and year arithmetic\<close>

lemma div_lower: "0 < (k::int) \<Longrightarrow> k * (a div k) \<le> a"
  using pos_mod_sign [of k a] mult_div_mod_eq [of k a] by linarith

lemma div_upper: "0 < (k::int) \<Longrightarrow> a < k * (a div k) + k"
  using pos_mod_bound [of k a] mult_div_mod_eq [of k a] by linarith

lemma div_step:
  fixes a b k :: int
  assumes "0 < k" and "b = a + 1"
  shows "b div k = a div k + (if b mod k = 0 then 1 else 0)"
proof -
  have e: "a = k * (a div k) + a mod k" by simp
  have m: "0 \<le> a mod k" "a mod k < k" using assms by simp_all
  show ?thesis
  proof (cases "a mod k = k - 1")
    case True
    have "b = k * (a div k) + (k - 1) + 1" using e True assms(2) by simp
    then have s: "b = k * (a div k + 1) + 0" by (simp add: algebra_simps)
    have "b div k = a div k + 1" using s by (rule int_div_pos_eq) (use assms in simp_all)
    moreover have "b mod k = 0" using s by (rule int_mod_pos_eq) (use assms in simp_all)
    ultimately show ?thesis by simp
  next
    case False
    then have r: "0 \<le> a mod k + 1" "a mod k + 1 < k" using m by simp_all
    have s: "b = k * (a div k) + (a mod k + 1)" using e assms(2) by simp
    have "b div k = a div k" using s r by (rule int_div_pos_eq)
    moreover have "b mod k = a mod k + 1" using s r by (rule int_mod_pos_eq)
    ultimately show ?thesis using m by simp
  qed
qed

lemma mod_shift: "((y::int) - k * c) mod k = y mod k"
  using mod_mult_self2 [of y k "- c"] by simp

lemma DayFromYear_next: "DayFromYear (y + 1) = DayFromYear y + 365 + InLeapYear y"
proof -
  define q1 where "q1 = (y - 1969) div 4"
  define q2 where "q2 = (y - 1901) div 100"
  define q3 where "q3 = (y - 1601) div 400"
  define L4 where "L4 \<longleftrightarrow> y mod 4 = 0"
  define L100 where "L100 \<longleftrightarrow> y mod 100 = 0"
  define L400 where "L400 \<longleftrightarrow> y mod 400 = 0"
  have s1: "y + 1 - 1969 = y - 1969 + 1" "y + 1 - 1969 = y - 4 * 492" by simp_all
  have a: "(y + 1 - 1969) div 4 = q1 + (if L4 then 1 else 0)"
    unfolding q1_def L4_def using div_step [of 4, OF _ s1(1)]
    unfolding s1(2) mod_shift by simp
  have s2: "y + 1 - 1901 = y - 1901 + 1" "y + 1 - 1901 = y - 100 * 19" by simp_all
  have b: "(y + 1 - 1901) div 100 = q2 + (if L100 then 1 else 0)"
    unfolding q2_def L100_def using div_step [of 100, OF _ s2(1)]
    unfolding s2(2) mod_shift by simp
  have s3: "y + 1 - 1601 = y - 1601 + 1" "y + 1 - 1601 = y - 400 * 4" by simp_all
  have c: "(y + 1 - 1601) div 400 = q3 + (if L400 then 1 else 0)"
    unfolding q3_def L400_def using div_step [of 400, OF _ s3(1)]
    unfolding s3(2) mod_shift by simp
  have d: "L400 \<Longrightarrow> L100" unfolding L400_def L100_def
    using mod_mod_cancel [of 100 400 y] by simp
  have e: "L100 \<Longrightarrow> L4" unfolding L4_def L100_def
    using mod_mod_cancel [of 4 100 y] by simp
  have l: "InLeapYear y = (if L4 \<and> (\<not> L100 \<or> L400) then 1 else 0)"
    unfolding InLeapYear_def L4_def L100_def L400_def by simp
  have n: "DayFromYear y = 365 * (y - 1970) + q1 - q2 + q3"
    unfolding DayFromYear_def q1_def q2_def q3_def by simp
  have "DayFromYear (y + 1) = 365 * (y + 1 - 1970) + (q1 + (if L4 then 1 else 0))
          - (q2 + (if L100 then 1 else 0)) + (q3 + (if L400 then 1 else 0))"
    unfolding DayFromYear_def a b c by simp
  then show ?thesis unfolding l n using d e
    by (cases L4; cases L100; cases L400; simp)
qed

lemma InLeapYear_range: "InLeapYear y = 0 \<or> InLeapYear y = 1"
  by (simp add: InLeapYear_def)

lemma DayFromYear_mono: "y \<le> y' \<Longrightarrow> DayFromYear y \<le> DayFromYear y'"
proof (induction y' rule: int_ge_induct)
  case base
  show ?case by simp
next
  case (step i)
  then show ?case
    using DayFromYear_next [of i] InLeapYear_range [of i] by linarith
qed

lemma DayFromYear_estimate:
  "146097 * (y - 1970) - 506 \<le> 400 * DayFromYear y
   \<and> 400 * DayFromYear y \<le> 146097 * (y - 1970) + 589"
proof -
  define q1 where "q1 = (y - 1969) div 4"
  define q2 where "q2 = (y - 1901) div 100"
  define q3 where "q3 = (y - 1601) div 400"
  have n: "DayFromYear y = 365 * (y - 1970) + q1 - q2 + q3"
    unfolding DayFromYear_def q1_def q2_def q3_def by simp
  have b1: "4 * q1 \<le> y - 1969" "y - 1969 < 4 * q1 + 4"
    unfolding q1_def by (rule div_lower, simp) (rule div_upper, simp)
  have b2: "100 * q2 \<le> y - 1901" "y - 1901 < 100 * q2 + 100"
    unfolding q2_def by (rule div_lower, simp) (rule div_upper, simp)
  have b3: "400 * q3 \<le> y - 1601" "y - 1601 < 400 * q3 + 400"
    unfolding q3_def by (rule div_lower, simp) (rule div_upper, simp)
  have t: "y - 1969 \<le> 4 * q1 + 3" "y - 1601 \<le> 400 * q3 + 399"
    using b1(2) b3(2) by simp_all
  have "146097 * (y - 1970) - 506 \<le> 400 * (365 * (y - 1970) + q1 - q2 + q3)"
    using t b2(1) by (simp add: algebra_simps)
  moreover have "400 * (365 * (y - 1970) + q1 - q2 + q3) \<le> 146097 * (y - 1970) + 589"
    using b1(1) b2(2) b3(1) by (simp add: algebra_simps)
  ultimately show ?thesis unfolding n by simp
qed

lemma YearFromDay_bracket:
  "DayFromYear (YearFromDay d) \<le> d \<and> d < DayFromYear (YearFromDay d + 1)"
proof -
  define g where "g = (400 * d) div 146097"
  define y where "y = 1970 + g"
  have g: "146097 * g \<le> 400 * d" "400 * d < 146097 * g + 146097"
    unfolding g_def by (rule div_lower, simp) (rule div_upper, simp)
  have e: "146097 * g - 506 \<le> 400 * DayFromYear y" "400 * DayFromYear y \<le> 146097 * g + 589"
    using DayFromYear_estimate [of y] unfolding y_def by simp_all
  have p: "DayFromYear y = DayFromYear (y - 1) + 365 + InLeapYear (y - 1)"
    using DayFromYear_next [of "y - 1"] by simp
  have n1: "DayFromYear (y + 1) = DayFromYear y + 365 + InLeapYear y"
    by (rule DayFromYear_next)
  have n2: "DayFromYear (y + 1 + 1) = DayFromYear (y + 1) + 365 + InLeapYear (y + 1)"
    by (rule DayFromYear_next)
  have lo: "DayFromYear (y - 1) \<le> d"
    using g e p InLeapYear_range [of "y - 1"] by linarith
  have hi: "d < DayFromYear (y + 1 + 1)"
    using g e n1 n2 InLeapYear_range [of y] InLeapYear_range [of "y + 1"] by linarith
  have r: "YearFromDay d = (if d < DayFromYear y then y - 1
                            else if DayFromYear (y + 1) \<le> d then y + 1 else y)"
    unfolding YearFromDay_def y_def g_def Let_def by simp
  show ?thesis
  proof (cases "d < DayFromYear y")
    case True
    then show ?thesis using lo r by simp
  next
    case False
    show ?thesis
    proof (cases "DayFromYear (y + 1) \<le> d")
      case True
      then show ?thesis using False hi r by simp
    next
      case f: False
      then show ?thesis using False r by simp
    qed
  qed
qed

lemma YearFromDay_unique:
  assumes "DayFromYear y \<le> d" and "d < DayFromYear (y + 1)"
  shows "YearFromDay d = y"
proof -
  let ?r = "YearFromDay d"
  have b: "DayFromYear ?r \<le> d" "d < DayFromYear (?r + 1)"
    using YearFromDay_bracket [of d] by simp_all
  have "\<not> ?r < y"
  proof
    assume "?r < y"
    then have "DayFromYear (?r + 1) \<le> DayFromYear y" by (simp add: DayFromYear_mono)
    with b(2) assms(1) show False by linarith
  qed
  moreover have "\<not> y < ?r"
  proof
    assume "y < ?r"
    then have "DayFromYear (y + 1) \<le> DayFromYear ?r" by (simp add: DayFromYear_mono)
    with b(1) assms(2) show False by linarith
  qed
  ultimately show ?thesis by linarith
qed

lemma month_index_cases:
  "0 \<le> (m::int) \<Longrightarrow> m \<le> 11 \<Longrightarrow>
   m = 0 \<or> m = 1 \<or> m = 2 \<or> m = 3 \<or> m = 4 \<or> m = 5 \<or> m = 6 \<or> m = 7 \<or> m = 8
   \<or> m = 9 \<or> m = 10 \<or> m = 11"
  by presburger

lemma month_start_length:
  assumes "1 \<le> m" and "m \<le> 12"
  shows "month_start (InLeapYear y) m = month_start (InLeapYear y) (m - 1) + days_in_month y m"
proof -
  from assms have "m = 1 \<or> m = 2 \<or> m = 3 \<or> m = 4 \<or> m = 5 \<or> m = 6 \<or> m = 7
      \<or> m = 8 \<or> m = 9 \<or> m = 10 \<or> m = 11 \<or> m = 12"
    by presburger
  then show ?thesis
    by (elim disjE) (simp_all add: month_start_def days_in_month_def)
qed

lemma month_start_bounds:
  assumes "0 \<le> m" and "m \<le> 11" and "L = 0 \<or> L = 1"
  shows "0 \<le> month_start L m \<and> month_start L (m + 1) \<le> 365 + L"
  using month_index_cases [OF assms(1,2)] assms(3)
  by (elim disjE) (simp_all add: month_start_def)

lemma MonthFromDayWithinYear_eq:
  assumes "0 \<le> m" and "m \<le> 11" and "L = 0 \<or> L = 1"
    and "month_start L m \<le> x" and "x < month_start L (m + 1)"
  shows "MonthFromDayWithinYear L x = m"
  using month_index_cases [OF assms(1,2)] assms(3,4,5)
  by (elim disjE) (simp_all add: month_start_def MonthFromDayWithinYear_def)

lemma MonthFromDayWithinYear_upper:
  assumes "0 \<le> m" and "m \<le> 11" and "L = 0 \<or> L = 1"
    and "MonthFromDayWithinYear L x = m" and "x < 365 + L"
  shows "x < month_start L (m + 1)"
  using month_index_cases [OF assms(1,2)] assms(3,4,5)
  by (elim disjE) (simp_all add: month_start_def MonthFromDayWithinYear_def split: if_splits)

lemma Day_of_midnight: "Day (n * msPerDay) = n"
  by (simp add: Day_def msPerDay_def)

lemma MakeDay_in_year:
  "0 \<le> m \<Longrightarrow> m \<le> 11 \<Longrightarrow>
   MakeDay y m d = DayFromYear y + month_start (InLeapYear y) m + d - 1"
  by (simp add: MakeDay_def Let_def)

lemma getters_of_valid_date:
  assumes "valid_date y m d"
  shows "getFullYear (date_utc y m d) = y \<and> getMonth (date_utc y m d) + 1 = m
         \<and> getDate (date_utc y m d) = d"
proof -
  let ?L = "InLeapYear y"
  let ?x = "month_start ?L (m - 1) + d - 1"
  from assms have m: "0 \<le> m - 1" "m - 1 \<le> 11" "1 \<le> m" "m \<le> 12"
    and d: "1 \<le> d" "d \<le> days_in_month y m"
    by (simp_all add: valid_date_def)
  have D: "Day (date_utc y m d) = DayFromYear y + ?x"
    unfolding date_utc_def Day_of_midnight using MakeDay_in_year [OF m(1,2)] by simp
  have len: "month_start ?L (m - 1 + 1) = month_start ?L (m - 1) + days_in_month y m"
    using month_start_length [OF m(3,4)] by simp
  have bnd: "0 \<le> month_start ?L (m - 1)" "month_start ?L (m - 1 + 1) \<le> 365 + ?L"
    using month_start_bounds [OF m(1,2) InLeapYear_range] by simp_all
  have x: "month_start ?L (m - 1) \<le> ?x" "?x < month_start ?L (m - 1 + 1)"
    using d len by simp_all
  have "DayFromYear y \<le> DayFromYear y + ?x" using x(1) bnd(1) by simp
  moreover have "DayFromYear y + ?x < DayFromYear (y + 1)"
    using x(2) bnd(2) DayFromYear_next [of y] by simp
  ultimately have Y: "YearFromDay (DayFromYear y + ?x) = y"
    by (rule YearFromDay_unique)
  have M: "MonthFromDayWithinYear ?L ?x = m - 1"
    using m(1,2) InLeapYear_range x by (rule MonthFromDayWithinYear_eq)
  show ?thesis
    unfolding getFullYear_def getMonth_def getDate_def D Let_def Y using M by simp
qed

lemma valid_date_of_getters:
  assumes "1 \<le> m" and "m \<le> 12" and "1 \<le> d"
    and "getFullYear (date_utc y m d) = y" and "getMonth (date_utc y m d) + 1 = m"
  shows "valid_date y m d"
proof -
  let ?L = "InLeapYear y"
  let ?x = "month_start ?L (m - 1) + d - 1"
  from assms have m: "0 \<le> m - 1" "m - 1 \<le> 11" by simp_all
  have D: "Day (date_utc y m d) = DayFromYear y + ?x"
    unfolding date_utc_def Day_of_midnight using MakeDay_in_year [OF m] by simp
  have Y: "YearFromDay (DayFromYear y + ?x) = y"
    using assms(4) unfolding getFullYear_def D .
  have M: "MonthFromDayWithinYear ?L ?x = m - 1"
    using assms(5) unfolding getMonth_def D Let_def Y by simp
  have "DayFromYear y + ?x < DayFromYear (YearFromDay (DayFromYear y + ?x) + 1)"
    using YearFromDay_bracket by simp
  then have "?x < 365 + ?L"
    unfolding Y using DayFromYear_next [of y] by simp
  with m InLeapYear_range M have "?x < month_start ?L (m - 1 + 1)"
    by (rule MonthFromDayWithinYear_upper)
  then have "d \<le> days_in_month y m"
    using month_start_length [OF assms(1,2), of y] by simp
  with assms(1,2,3) show ?thesis by (simp add: valid_date_def)
qed


subsection \<open>Digits, numbers and literals\<close>

lemma of_char_digit_char: "n < 10 \<Longrightarrow> (of_char (digit_char n) :: nat) = 48 + n"
  by (simp add: digit_char_def)

lemma is_digit_digit_char: "n < 10 \<Longrightarrow> is_digit (digit_char n)"
  by (simp add: is_digit_def of_char_digit_char)

lemma digit_val_digit_char: "n < 10 \<Longrightarrow> digit_val (digit_char n) = int n"
  by (simp add: digit_val_def of_char_digit_char)

lemma is_digit_not_dash: "is_digit c \<Longrightarrow> c \<noteq> CHR ''-''"
  by (auto simp: is_digit_def)

lemma is_digit_not_line_terminator: "is_digit c \<Longrightarrow> \<not> is_line_terminator c"
  by (auto simp: is_digit_def is_line_terminator_def)

lemma Number_of_snoc: "Number_of (s @ [c]) = 10 * Number_of s + digit_val c"
  by (simp add: Number_of_def)

lemma Number_of_nat_to_string: "Number_of (nat_to_string n) = int n"
proof (induction n rule: nat_to_string.induct)
  case (1 n)
  show ?case
  proof (cases "n < 10")
    case True
    then show ?thesis
      by (simp add: nat_to_string.simps [of n] Number_of_def digit_val_digit_char)
  next
    case False
    then have "Number_of (nat_to_string (n div 10)) = int (n div 10)" by (rule "1.IH")
    moreover have "digit_val (digit_char (n mod 10)) = int (n mod 10)"
      by (simp add: digit_val_digit_char)
    moreover have "nat_to_string n = nat_to_string (n div 10) @ [digit_char (n mod 10)]"
      using False by (simp add: nat_to_string.simps [of n])
    moreover have "10 * int (n div 10) + int (n mod 10) = int n"
      unfolding of_nat_div of_nat_mod by simp
    ultimately show ?thesis
      by (simp add: Number_of_snoc)
  qed
qed

lemma digits_nat_to_string: "c \<in> set (nat_to_string n) \<Longrightarrow> is_digit c"
proof (induction n rule: nat_to_string.induct)
  case (1 n)
  show ?case
  proof (cases "n < 10")
    case True
    then show ?thesis using "1.prems"
      by (simp add: nat_to_string.simps [of n] is_digit_digit_char)
  next
    case False
    then have "nat_to_string n = nat_to_string (n div 10) @ [digit_char (n mod 10)]"
      by (simp add: nat_to_string.simps [of n])
    with "1.prems" "1.IH" False show ?thesis
      by (auto simp: is_digit_digit_char)
  qed
qed

lemma length_nat_to_string_upper:
  "0 < k \<Longrightarrow> n < 10 ^ k \<Longrightarrow> length (nat_to_string n) \<le> k"
proof (induction k arbitrary: n)
  case 0
  then show ?case by simp
next
  case (Suc k)
  show ?case
  proof (cases "n < 10")
    case True
    then show ?thesis by (simp add: nat_to_string.simps [of n])
  next
    case False
    then have k: "0 < k" using Suc.prems(2) by (cases k) simp_all
    have "n div 10 < 10 ^ k" using Suc.prems(2) by (simp add: less_mult_imp_div_less mult.commute)
    then have "length (nat_to_string (n div 10)) \<le> k" using k by (simp add: Suc.IH)
    then show ?thesis using False by (simp add: nat_to_string.simps [of n])
  qed
qed

lemma length_nat_to_string_lower:
  "10 ^ k \<le> n \<Longrightarrow> k < length (nat_to_string n)"
proof (induction k arbitrary: n)
  case 0
  then show ?case by (simp add: nat_to_string.simps [of n])
next
  case (Suc k)
  then have n: "\<not> n < 10" by (cases "n < 10") (auto simp: not_le dest: less_le_trans [of n 10 "10 * 10 ^ k"])
  have "10 ^ k \<le> n div 10" using Suc.prems by (simp add: less_eq_div_iff_mult_less_eq mult.commute)
  then have "k < length (nat_to_string (n div 10))" by (rule Suc.IH)
  then show ?case using n by (simp add: nat_to_string.simps [of n])
qed

lemma Number_of_zeros: "Number_of (replicate k (CHR ''0'') @ s) = Number_of s"
  by (induction k) (simp_all add: Number_of_def digit_val_def)

lemma Number_of_padStart: "Number_of (padStart k (CHR ''0'') s) = Number_of s"
  by (simp add: padStart_def Number_of_zeros)

lemma length_padStart: "length s \<le> k \<Longrightarrow> length (padStart k c s) = k"
  by (simp add: padStart_def)

lemma padStart_long: "k \<le> length s \<Longrightarrow> padStart k c s = s"
  by (simp add: padStart_def)

lemma digits_padStart:
  "\<forall>c \<in> set s. is_digit c \<Longrightarrow> \<forall>c \<in> set (padStart k (CHR ''0'') s). is_digit c"
  by (auto simp: padStart_def is_digit_def)

lemma split_on_no_sep: "sep \<notin> set a \<Longrightarrow> split_on sep a = [a]"
  by (induction a) auto

lemma split_on_append: "sep \<notin> set a \<Longrightarrow> split_on sep (a @ sep # rest) = a # split_on sep rest"
  by (induction a) auto

subsection \<open>The review-date marker\<close>

lemma date_shape_chars:
  assumes "date_shape ds"
  obtains y1 y2 y3 y4 m1 m2 d1 d2 where
    "ds = [y1, y2, y3, y4, CHR ''-'', m1, m2, CHR ''-'', d1, d2]"
    "is_digit y1" "is_digit y2" "is_digit y3" "is_digit y4"
    "is_digit m1" "is_digit m2" "is_digit d1" "is_digit d2"
  using assms unfolding date_shape_def by (auto split: list.splits)

lemma date_shape_length: "date_shape ds \<Longrightarrow> length ds = 10"
  by (erule date_shape_chars) simp

lemma date_shape_parts:
  assumes "date_shape ds"
  shows "map Number_of (split_on (CHR ''-'') ds) =
           [Number_of (take 4 ds), Number_of (take 2 (drop 5 ds)), Number_of (take 2 (drop 8 ds))]"
  using assms by (elim date_shape_chars) (simp add: is_digit_not_dash)

lemma date_shape_no_line_terminator:
  "date_shape ds \<Longrightarrow> c \<in> set ds \<Longrightarrow> \<not> is_line_terminator c"
  by (erule date_shape_chars) (auto simp: is_line_terminator_def is_digit_def)

lemma marker_here_intro:
  "date_shape ds \<Longrightarrow> marker_here (''reviewed at '' @ ds @ post)"
  by (simp add: marker_here_def date_shape_length)

lemma marker_here_split:
  assumes "marker_here s"
  shows "s = ''reviewed at '' @ take 10 (drop 12 s) @ drop 22 s"
proof -
  have "take 10 (drop 12 s) @ drop 10 (drop 12 s) = drop 12 s"
    by (rule append_take_drop_id)
  moreover have "drop 10 (drop 12 s) = drop 22 s" by simp
  moreover have "take 12 s @ drop 12 s = s" by (rule append_take_drop_id)
  moreover have "take 12 s = ''reviewed at ''" using assms by (simp add: marker_here_def)
  ultimately show ?thesis by metis
qed

lemma marker_here_take: "marker_here (take 22 s) = marker_here s"
  by (simp add: marker_here_def drop_take)

lemma marker_here_no_line_terminator:
  assumes "marker_here s" and "c \<in> set (take 22 s)"
  shows "\<not> is_line_terminator c"
proof -
  let ?ds = "take 10 (drop 12 s)"
  have ds: "date_shape ?ds" using assms(1) by (simp add: marker_here_def)
  have "take 22 s = take 22 (''reviewed at '' @ ?ds @ drop 22 s)"
    using marker_here_split [OF assms(1)] by simp
  also have "\<dots> = ''reviewed at '' @ ?ds"
    using date_shape_length [OF ds] by simp
  finally have "c \<in> set ''reviewed at '' \<or> c \<in> set ?ds" using assms(2) by auto
  then show ?thesis
  proof
    assume "c \<in> set ''reviewed at ''"
    then show ?thesis by (auto simp: is_line_terminator_def)
  next
    assume "c \<in> set ?ds"
    with ds show ?thesis by (rule date_shape_no_line_terminator)
  qed
qed

lemma marker_search_Some:
  "marker_search bol s = Some (pre, ds, post) \<Longrightarrow>
     s = pre @ ''reviewed at '' @ ds @ post \<and> date_shape ds
     \<and> (pre = [] \<longrightarrow> bol) \<and> (pre \<noteq> [] \<longrightarrow> is_line_terminator (last pre))"
proof (induction s arbitrary: bol pre)
  case Nil
  then show ?case by simp
next
  case (Cons c cs)
  show ?case
  proof (cases "bol \<and> marker_here (c # cs)")
    case True
    with Cons.prems have e: "pre = []" "ds = take 10 (drop 12 (c # cs))" "post = drop 22 (c # cs)"
      by simp_all
    from True have "date_shape ds" unfolding e by (simp add: marker_here_def)
    moreover have "c # cs = ''reviewed at '' @ ds @ post"
      unfolding e using True by (intro marker_here_split) simp
    ultimately show ?thesis using True e(1) by simp
  next
    case False
    with Cons.prems obtain p where
      r: "marker_search (is_line_terminator c) cs = Some (p, ds, post)" and p: "pre = c # p"
      by (auto split: if_splits)
    from Cons.IH [OF r] show ?thesis unfolding p by (cases "p = []") simp_all
  qed
qed

lemma marker_search_replace:
  "marker_search bol s = Some (pre, old, post) \<Longrightarrow> date_shape new \<Longrightarrow>
     marker_search bol (pre @ ''reviewed at '' @ new @ post) = Some (pre, new, post)"
proof (induction s arbitrary: bol pre)
  case Nil
  then show ?case by simp
next
  case (Cons c cs)
  have here: "marker_here (''reviewed at '' @ new @ post)"
    using Cons.prems(2) by (rule marker_here_intro)
  have len: "length new = 10" using Cons.prems(2) by (rule date_shape_length)
  show ?case
  proof (cases "bol \<and> marker_here (c # cs)")
    case True
    with Cons.prems(1) have "pre = []" by simp
    with True here len show ?thesis by simp
  next
    case False
    with Cons.prems(1) obtain p where
      r: "marker_search (is_line_terminator c) cs = Some (p, old, post)" and p: "pre = c # p"
      by (auto split: if_splits)
    note s = marker_search_Some [OF r]
    let ?t = "c # p @ ''reviewed at '' @ new @ post"
    have no: "\<not> (bol \<and> marker_here ?t)"
    proof
      assume a: "bol \<and> marker_here ?t"
      show False
      proof (cases "22 \<le> length (c # p)")
        case True
        then have "take 22 ?t = take 22 (c # cs)" using s by simp
        then have "marker_here (c # cs)"
          using a marker_here_take [of ?t] marker_here_take [of "c # cs"] by simp
        with a False show False by simp
      next
        case short: False
        have "is_line_terminator (last (c # p))" using s by (cases "p = []") simp_all
        moreover have "last (c # p) \<in> set (take 22 ?t)"
        proof -
          have "take 22 ?t = (c # p) @ take (22 - length (c # p)) (''reviewed at '' @ new @ post)"
            using short by simp
          then show ?thesis by (simp del: take_Cons_numeral)
        qed
        ultimately show False using a marker_here_no_line_terminator by blast
      qed
    qed
    have "marker_search (is_line_terminator c) (p @ ''reviewed at '' @ new @ post) = Some (p, new, post)"
      using r Cons.prems(2) by (rule Cons.IH)
    with no show ?thesis unfolding p by simp
  qed
qed

subsection \<open>Reading the date of a review line\<close>

lemma days_in_month_le_31: "days_in_month y m \<le> 31"
  using InLeapYear_range [of y] by (auto simp: days_in_month_def)

lemma getReviewDate_on_match:
  assumes "marker_search True content = Some (pre, ds, post)"
  shows "getReviewDate content =
           (if valid_literal ds
            then Some (date_utc (literal_year ds) (literal_month ds) (literal_day ds))
            else None)"
proof -
  let ?y = "literal_year ds" and ?m = "literal_month ds" and ?d = "literal_day ds"
  let ?range = "1 \<le> ?m \<and> ?m \<le> 12 \<and> 1 \<le> ?d \<and> ?d \<le> 31"
  have sh: "date_shape ds" using marker_search_Some [OF assms] by simp
  have parts: "map Number_of (split_on (CHR ''-'') ds) = [?y, ?m, ?d]"
    using date_shape_parts [OF sh] by (simp add: literal_year_def literal_month_def literal_day_def)
  have parse: "Date_of_string ds = (if ?range then Some (date_utc ?y ?m ?d) else None)"
    by (simp add: Date_of_string_def date_utc_def Let_def
          literal_year_def literal_month_def literal_day_def)
  show ?thesis
  proof (cases "valid_literal ds")
    case True
    then have v: "valid_date ?y ?m ?d" by (simp add: valid_literal_def)
    then have "?range"
      using days_in_month_le_31 [of ?y ?m] by (simp add: valid_date_def)
    with parse have "Date_of_string ds = Some (date_utc ?y ?m ?d)" by simp
    with assms parts getters_of_valid_date [OF v] True show ?thesis
      by (simp add: getReviewDate_def)
  next
    case False
    then have nv: "\<not> valid_date ?y ?m ?d" by (simp add: valid_literal_def)
    show ?thesis
    proof (cases ?range)
      case r: True
      with parse have p: "Date_of_string ds = Some (date_utc ?y ?m ?d)" by simp
      have "getFullYear (date_utc ?y ?m ?d) \<noteq> ?y \<or> getMonth (date_utc ?y ?m ?d) + 1 \<noteq> ?m"
        using nv r valid_date_of_getters [of ?m ?d ?y] by blast
      with assms parts p False show ?thesis
        by (auto simp: getReviewDate_def)
    next
      case r: False
      with parse have "Date_of_string ds = None" by simp
      with assms False show ?thesis by (simp add: getReviewDate_def)
    qed
  qed
qed


lemma literal_structure:
  assumes "length Y = 4" and "length M = 2" and "length D = 2"
    and "\<forall>c \<in> set Y. is_digit c" and "\<forall>c \<in> set M. is_digit c" and "\<forall>c \<in> set D. is_digit c"
  shows "date_shape (Y @ ''-'' @ M @ ''-'' @ D)
         \<and> literal_year (Y @ ''-'' @ M @ ''-'' @ D) = Number_of Y
         \<and> literal_month (Y @ ''-'' @ M @ ''-'' @ D) = Number_of M
         \<and> literal_day (Y @ ''-'' @ M @ ''-'' @ D) = Number_of D"
proof -
  from assms(1) obtain y1 y2 y3 y4 where Y: "Y = [y1, y2, y3, y4]"
    by (auto simp: length_Suc_conv eval_nat_numeral)
  from assms(2) obtain m1 m2 where M: "M = [m1, m2]"
    by (auto simp: length_Suc_conv eval_nat_numeral)
  from assms(3) obtain d1 d2 where D: "D = [d1, d2]"
    by (auto simp: length_Suc_conv eval_nat_numeral)
  show ?thesis
    using assms(4,5,6) unfolding Y M D
    by (simp add: date_shape_def literal_year_def literal_month_def literal_day_def)
qed

lemma String_of_nonneg: "0 \<le> i \<Longrightarrow> String_of i = nat_to_string (nat i)"
  by (simp add: String_of_def)

lemma padded_number:
  assumes "0 \<le> i" and "i < 10 ^ k" and "0 < k"
  shows "length (padStart k (CHR ''0'') (String_of i)) = k
         \<and> (\<forall>c \<in> set (padStart k (CHR ''0'') (String_of i)). is_digit c)
         \<and> Number_of (padStart k (CHR ''0'') (String_of i)) = i"
proof -
  have s: "String_of i = nat_to_string (nat i)" using assms(1) by (rule String_of_nonneg)
  have "nat i < 10 ^ k" using assms(1,2) by (simp add: nat_less_iff)
  then have "length (nat_to_string (nat i)) \<le> k"
    using assms(3) by (simp add: length_nat_to_string_upper)
  then have "length (padStart k (CHR ''0'') (String_of i)) = k"
    unfolding s by (rule length_padStart)
  moreover have "\<forall>c \<in> set (padStart k (CHR ''0'') (String_of i)). is_digit c"
    unfolding s by (rule digits_padStart) (simp add: digits_nat_to_string)
  moreover have "Number_of (padStart k (CHR ''0'') (String_of i)) = i"
    unfolding s using assms(1) by (simp add: Number_of_padStart Number_of_nat_to_string)
  ultimately show ?thesis by simp
qed

lemma iso_date_literal:
  assumes "0 \<le> y" "y \<le> 9999" "0 \<le> m" "m \<le> 99" "0 \<le> d" "d \<le> 99"
  shows "date_shape (iso_date y m d) \<and> literal_year (iso_date y m d) = y
         \<and> literal_month (iso_date y m d) = m \<and> literal_day (iso_date y m d) = d"
proof -
  have Y: "y < 10 ^ 4" and M: "m < 10 ^ 2" and D: "d < 10 ^ 2" using assms by simp_all
  note py = padded_number [OF assms(1) Y] and pm = padded_number [OF assms(3) M]
    and pd = padded_number [OF assms(5) D]
  show ?thesis
    unfolding iso_date_def
    using literal_structure [of "padStart 4 (CHR ''0'') (String_of y)"
        "padStart 2 (CHR ''0'') (String_of m)" "padStart 2 (CHR ''0'') (String_of d)"] py pm pd
    by simp
qed

lemma formatDate_iso_date:
  assumes "valid_date y m d" and "1000 \<le> y" and "y \<le> 9999"
  shows "formatDate (date_utc y m d) = iso_date y m d"
proof -
  have "10 ^ 3 \<le> nat y" using assms(2) by simp
  then have "3 < length (nat_to_string (nat y))" by (rule length_nat_to_string_lower)
  then have "padStart 4 (CHR ''0'') (String_of y) = String_of y"
    using assms(2) by (simp add: String_of_nonneg padStart_long)
  then show ?thesis
    using getters_of_valid_date [OF assms(1)]
    by (simp add: formatDate_def iso_date_def Let_def)
qed

lemma valid_date_fields: "valid_date y m d \<Longrightarrow> 0 \<le> m \<and> m \<le> 99 \<and> 0 \<le> d \<and> d \<le> 99"
  using days_in_month_le_31 [of y m] by (simp add: valid_date_def)

lemma valid_literal_iso_date:
  assumes "valid_date y m d" and "0 \<le> y" and "y \<le> 9999"
  shows "date_shape (iso_date y m d) \<and> valid_literal (iso_date y m d)
         \<and> literal_year (iso_date y m d) = y \<and> literal_month (iso_date y m d) = m
         \<and> literal_day (iso_date y m d) = d"
proof -
  from valid_date_fields [OF assms(1)]
  have "0 \<le> m" "m \<le> 99" "0 \<le> d" "d \<le> 99" by simp_all
  from iso_date_literal [OF assms(2,3) this] assms(1) show ?thesis
    by (simp add: valid_literal_def)
qed

lemma marker_search_at_start:
  "date_shape ds \<Longrightarrow> marker_search True (''reviewed at '' @ ds @ rest) = Some ([], ds, rest)"
  using marker_here_intro [of ds rest] by (simp add: date_shape_length)

lemma getReviewDate_legacy_marker:
  assumes "valid_date y m d" and "0 \<le> y" and "y \<le> 9999"
  shows "getReviewDate (''reviewed at '' @ iso_date y m d @ rest) = Some (date_utc y m d)"
proof -
  note v = valid_literal_iso_date [OF assms]
  then have "marker_search True (''reviewed at '' @ iso_date y m d @ rest)
               = Some ([], iso_date y m d, rest)"
    by (intro marker_search_at_start) simp
  from getReviewDate_on_match [OF this] v show ?thesis by simp
qed


subsection \<open>Staleness decision\<close>

lemma ONE_MONTH_MS_value: "ONE_MONTH_MS = 2592000000"
  by (simp add: ONE_MONTH_MS_def)

text \<open>
  Claim C3. \<open>needsReview\<close> is true for a missing review date. For a review date \<open>t\<close> and
  a clock reading \<open>now\<close> it is true exactly when \<open>now - t\<close> is strictly more than 30 days
  counted in milliseconds (2592000000): exactly 30 days later the document is still
  fresh, one millisecond after that it is stale.
\<close>

theorem needsReview_staleness:
  "needsReview now None = True
   \<and> needsReview now (Some t) = (now - t > 2592000000)
   \<and> needsReview (t + 2592000000) (Some t) = False
   \<and> needsReview (t + 2592000001) (Some t) = True"
  by (simp add: needsReview_def ONE_MONTH_MS_value)

subsection \<open>Round-robin selection\<close>

lemma js_rem_nonneg: "0 \<le> a \<Longrightarrow> 0 < b \<Longrightarrow> js_rem a b = a mod b"
  by (cases "a = 0") (simp_all add: js_rem_def)

lemma selectNextFile_None_iff: "selectNextFile files lastIndex = None \<longleftrightarrow> files = []"
  by (simp add: selectNextFile_def Let_def)

lemma selectNextFile_in_range:
  assumes "files \<noteq> []" and "- 1 \<le> lastIndex" and "lastIndex \<le> int (length files) - 1"
  shows "selectNextFile files lastIndex =
           Some \<lparr>sel_file = Some (files ! nat ((lastIndex + 1) mod int (length files))),
                 sel_index = (lastIndex + 1) mod int (length files)\<rparr>"
proof -
  let ?n = "int (length files)"
  from assms(1) have n: "0 < ?n" by simp
  from assms(2) have "0 \<le> lastIndex + 1" by simp
  with n have r: "js_rem (lastIndex + 1) ?n = (lastIndex + 1) mod ?n"
    by (simp add: js_rem_nonneg)
  have "0 \<le> (lastIndex + 1) mod ?n" and "(lastIndex + 1) mod ?n < ?n"
    using n by simp_all
  then have "js_index files ((lastIndex + 1) mod ?n)
               = Some (files ! nat ((lastIndex + 1) mod ?n))"
    by (simp add: js_index_def)
  with r assms(1) show ?thesis
    by (simp add: selectNextFile_def Let_def)
qed

text \<open>
  Claim C4. For a file list of length \<open>N > 0\<close> and a cursor \<open>lastIndex\<close> in \<open>[-1, N-1]\<close>,
  \<open>selectNextFile\<close> returns the file at index \<open>(lastIndex + 1) mod N\<close> together with
  that index; it returns null for the empty list, and only for the empty list.
\<close>

theorem selectNextFile_round_robin:
  "(files \<noteq> [] \<and> - 1 \<le> lastIndex \<and> lastIndex \<le> int (length files) - 1 \<longrightarrow>
      selectNextFile files lastIndex =
        Some \<lparr>sel_file = Some (files ! nat ((lastIndex + 1) mod int (length files))),
              sel_index = (lastIndex + 1) mod int (length files)\<rparr>)
   \<and> (selectNextFile files lastIndex = None \<longleftrightarrow> files = [])"
  by (simp add: selectNextFile_in_range selectNextFile_None_iff)

theorem selectNextFile_round_robin_witness:
  "[''a.md'', ''b.md'', ''c.md''] \<noteq> [] \<and> - 1 \<le> (2::int)
   \<and> (2::int) \<le> int (length [''a.md'', ''b.md'', ''c.md'']) - 1
   \<and> selectNextFile [''a.md'', ''b.md'', ''c.md''] 2 = Some \<lparr>sel_file = Some ''a.md'', sel_index = 0\<rparr>
   \<and> selectNextFile [''a.md'', ''b.md'', ''c.md''] 0 \<noteq> None"
  using selectNextFile_round_robin [of "[''a.md'', ''b.md'', ''c.md'']" 2]
    selectNextFile_round_robin [of "[''a.md'', ''b.md'', ''c.md'']" 0]
  by simp

subsection \<open>Reading and writing the review date\<close>

lemma updateReviewDate_cases:
  "updateReviewDate content newDate =
     (case marker_search True content of
        Some (pre, old, post) \<Rightarrow> pre @ ''reviewed at '' @ formatDate newDate @ post
      | None \<Rightarrow> ''reviewed at '' @ formatDate newDate @ [LF, LF] @ content)"
  by (simp add: updateReviewDate_def Let_def split: option.splits)

lemma is_digit_iff: "is_digit c \<longleftrightarrow> c \<in> set ''0123456789''"
proof
  assume "c \<in> set ''0123456789''"
  then show "is_digit c" by (auto simp: is_digit_def)
next
  assume d: "is_digit c"
  define n where "n = (of_char c :: nat)"
  have c: "c = char_of n" by (simp add: n_def)
  from d have "48 \<le> n" "n \<le> 57" by (simp_all add: is_digit_def n_def)
  then have "n = 48 \<or> n = 49 \<or> n = 50 \<or> n = 51 \<or> n = 52 \<or> n = 53 \<or> n = 54
             \<or> n = 55 \<or> n = 56 \<or> n = 57" by presburger
  moreover have "char_of (48::nat) = CHR ''0''" "char_of (49::nat) = CHR ''1''"
    "char_of (50::nat) = CHR ''2''" "char_of (51::nat) = CHR ''3''"
    "char_of (52::nat) = CHR ''4''" "char_of (53::nat) = CHR ''5''"
    "char_of (54::nat) = CHR ''6''" "char_of (55::nat) = CHR ''7''"
    "char_of (56::nat) = CHR ''8''" "char_of (57::nat) = CHR ''9''"
    by code_simp+
  ultimately show "c \<in> set ''0123456789''"
    unfolding c by (elim disjE) simp_all
qed

lemma date_shape_iff: "date_shape ds \<longleftrightarrow> looks_like_date ds"
proof
  assume "date_shape ds"
  then show "looks_like_date ds"
    by (elim date_shape_chars) (simp add: looks_like_date_def is_digit_iff)
next
  assume l: "looks_like_date ds"
  then have "length ds = 10" by (simp add: looks_like_date_def)
  then obtain y1 y2 y3 y4 s1 m1 m2 s2 d1 d2 where
    ds: "ds = [y1, y2, y3, y4, s1, m1, m2, s2, d1, d2]"
    by (auto simp: length_Suc_conv eval_nat_numeral)
  from l show "date_shape ds"
    unfolding ds by (simp add: looks_like_date_def date_shape_def is_digit_iff)
qed

lemma at_start_True: "at_start True pre = at_line_start pre"
  by (simp add: at_start_def at_line_start_def is_line_terminator_def)

lemma at_start_Cons: "at_start bol (c # p) = at_start (is_line_terminator c) p"
  by (simp add: at_start_def)

lemma marker_search_None_no_marker:
  "marker_search bol s = None \<Longrightarrow> s = pre @ ''reviewed at '' @ ds @ post \<Longrightarrow>
   date_shape ds \<Longrightarrow> at_start bol pre \<Longrightarrow> False"
proof (induction s arbitrary: bol pre)
  case Nil
  then show ?case by simp
next
  case (Cons c cs)
  from Cons.prems(1) have no: "\<not> (bol \<and> marker_here (c # cs))"
    and r: "marker_search (is_line_terminator c) cs = None"
    by (auto split: if_splits)
  show ?case
  proof (cases pre)
    case Nil
    with Cons.prems(2,3,4) have "bol" "marker_here (c # cs)"
      using marker_here_intro [of ds post] by (simp_all add: at_start_def)
    with no show False by simp
  next
    case (Cons x p)
    with Cons.prems(2) have x: "x = c" and cs: "cs = p @ ''reviewed at '' @ ds @ post" by simp_all
    from Cons.prems(4) have "at_start (is_line_terminator c) p"
      unfolding Cons x by (simp only: at_start_Cons)
    from Cons.IH [OF r cs Cons.prems(3) this] show False .
  qed
qed

lemma marker_search_Some_first:
  "marker_search bol s = Some (pre, ds, post) \<Longrightarrow> s = pre' @ ''reviewed at '' @ ds' @ post' \<Longrightarrow>
   date_shape ds' \<Longrightarrow> at_start bol pre' \<Longrightarrow> length pre \<le> length pre'"
proof (induction s arbitrary: bol pre pre')
  case Nil
  then show ?case by simp
next
  case (Cons c cs)
  show ?case
  proof (cases "bol \<and> marker_here (c # cs)")
    case True
    with Cons.prems(1) show ?thesis by simp
  next
    case False
    with Cons.prems(1) obtain p where
      r: "marker_search (is_line_terminator c) cs = Some (p, ds, post)" and p: "pre = c # p"
      by (auto split: if_splits)
    show ?thesis
    proof (cases pre')
      case Nil
      with Cons.prems(2,3,4) have "bol" "marker_here (c # cs)"
        using marker_here_intro [of ds' post'] by (simp_all add: at_start_def)
      with False show ?thesis by simp
    next
      case (Cons x q)
      with Cons.prems(2) have x: "x = c" and cs: "cs = q @ ''reviewed at '' @ ds' @ post'"
        by simp_all
      from Cons.prems(4) have "at_start (is_line_terminator c) q"
        unfolding Cons x by (simp only: at_start_Cons)
      from Cons.IH [OF r cs Cons.prems(3) this] show ?thesis unfolding p Cons by simp
    qed
  qed
qed

lemma marker_search_review_line:
  "marker_search True content = Some (pre, ds, post) \<Longrightarrow> first_review_line content pre ds post"
proof -
  assume m: "marker_search True content = Some (pre, ds, post)"
  from marker_search_Some [OF m]
  have c: "content = pre @ ''reviewed at '' @ ds @ post" and sh: "date_shape ds"
    and st: "at_start True pre" by (simp_all add: at_start_def)
  have "review_line content pre ds post"
    using c sh st by (simp add: review_line_def date_shape_iff at_start_True)
  moreover have "length pre \<le> length pre'" if "review_line content pre' ds' post'" for pre' ds' post'
    using that marker_search_Some_first [OF m, of pre' ds' post']
    by (simp add: review_line_def date_shape_iff at_start_True)
  ultimately show ?thesis by (simp add: first_review_line_def)
qed


lemma no_match_no_review_line:
  "marker_search True content = None \<Longrightarrow> \<forall>pre ds post. \<not> review_line content pre ds post"
  using marker_search_None_no_marker [of True content]
  by (auto simp: review_line_def date_shape_iff at_start_True)




text \<open>
  Claim C8. The claim asks \<open>updateReviewDate\<close> to replace only the review date of a
  document that carries metadata in a recognized form, a front-matter block included.
  The function knows the review line only, the defect of claim C1 again. On the
  document of the repository's own test "updateReviewDate preserves other front matter
  fields", written with the date 2025-02-15, it leaves \<^verbatim>\<open>reviewed_at: 2025-01-01\<close> in
  the block and puts a review line and an empty line before the block, where the test
  expects \<^verbatim>\<open>reviewed_at: 2025-02-15\<close> in the block and nothing else changed. On a
  document with a front-matter block and a review line in its body, it rewrites the
  line of the body and leaves the block at its old date. (For a document without a
  block the function does what the claim says: lemmas
  \<open>updateReviewDate_first_review_line\<close> and \<open>updateReviewDate_no_review_line\<close>.)
\<close>

theorem updateReviewDate_front_matter_untouched:
  "updateReviewDate
     (''---'' @ [LF] @ ''author: test'' @ [LF] @ ''reviewed_at: 2025-01-01'' @ [LF] @ ''tags: docs''
        @ [LF] @ ''---'' @ [LF, LF] @ ''# Title'')
     (date_utc 2025 2 15)
   = ''reviewed at 2025-02-15'' @ [LF, LF]
       @ ''---'' @ [LF] @ ''author: test'' @ [LF] @ ''reviewed_at: 2025-01-01'' @ [LF] @ ''tags: docs''
       @ [LF] @ ''---'' @ [LF, LF] @ ''# Title''
   \<and> updateReviewDate
       (''---'' @ [LF] @ ''reviewed_at: 2025-01-01'' @ [LF] @ ''---'' @ [LF, LF]
          @ ''reviewed at 2024-12-31'' @ [LF])
       (date_utc 2025 2 15)
     = ''---'' @ [LF] @ ''reviewed_at: 2025-01-01'' @ [LF] @ ''---'' @ [LF, LF]
         @ ''reviewed at 2025-02-15'' @ [LF]"
  by code_simp

text \<open>
  The verifier rejects both results on the day of the write: the first no longer
  begins with its block, the second still holds the old date.
\<close>

theorem updateReviewDate_front_matter_untouched_witness:
  "check_modified
     [''docs/x.md'' \<mapsto>
        updateReviewDate
          (''---'' @ [LF] @ ''author: test'' @ [LF] @ ''reviewed_at: 2025-01-01'' @ [LF] @ ''tags: docs''
             @ [LF] @ ''---'' @ [LF, LF] @ ''# Title'')
          (date_utc 2025 2 15)]
     ''2025-02-15'' [''docs/x.md'']
   = (1, [(''docs/x.md'', MissingFrontMatter)])
   \<and> check_modified
       [''docs/y.md'' \<mapsto>
          updateReviewDate
            (''---'' @ [LF] @ ''reviewed_at: 2025-01-01'' @ [LF] @ ''---'' @ [LF, LF]
               @ ''reviewed at 2024-12-31'' @ [LF])
            (date_utc 2025 2 15)]
       ''2025-02-15'' [''docs/y.md'']
     = (1, [(''docs/y.md'', StaleOrMismatchedDate)])"
  unfolding updateReviewDate_front_matter_untouched [THEN conjunct1]
    updateReviewDate_front_matter_untouched [THEN conjunct2]
  by code_simp

text \<open>
  Claim C2, amended. For every content, with or without a review line, and every valid
  calendar date \<open>d\<close> of a year from 1000 to 9999, reading the review date back from
  the result of writing \<open>d\<close> yields exactly \<open>d\<close>. (\<open>formatDate\<close> pads the month and the
  day but not the year, so an earlier year is written with fewer than four digits,
  which the expression does not match.)
\<close>

theorem round_trip_four_digit_year:
  assumes "valid_date y m d" and "1000 \<le> y" and "y \<le> 9999"
  shows "getReviewDate (updateReviewDate content (date_utc y m d)) = Some (date_utc y m d)"
proof -
  have f: "formatDate (date_utc y m d) = iso_date y m d"
    using assms by (rule formatDate_iso_date)
  from assms(2) have "0 \<le> y" by simp
  note v = valid_literal_iso_date [OF assms(1) this assms(3)]
  show ?thesis
  proof (cases "marker_search True content")
    case None
    then have "updateReviewDate content (date_utc y m d)
                 = ''reviewed at '' @ iso_date y m d @ ([LF, LF] @ content)"
      by (simp add: updateReviewDate_cases f)
    moreover have "marker_search True (''reviewed at '' @ iso_date y m d @ ([LF, LF] @ content))
                     = Some ([], iso_date y m d, [LF, LF] @ content)"
      using v by (intro marker_search_at_start) simp
    ultimately show ?thesis using getReviewDate_on_match v by simp
  next
    case (Some r)
    obtain pre old post where r: "r = (pre, old, post)" by (cases r)
    from Some have "updateReviewDate content (date_utc y m d)
                 = pre @ ''reviewed at '' @ iso_date y m d @ post"
      by (simp add: updateReviewDate_cases f r)
    moreover have "marker_search True (pre @ ''reviewed at '' @ iso_date y m d @ post)
                     = Some (pre, iso_date y m d, post)"
      using Some v unfolding r by (intro marker_search_replace) simp_all
    ultimately show ?thesis using getReviewDate_on_match v by simp
  qed
qed

theorem round_trip_four_digit_year_witness:
  "valid_date 2025 2 15 \<and> (1000::int) \<le> 2025 \<and> (2025::int) \<le> 9999
   \<and> getReviewDate (updateReviewDate ''# Title'' (date_utc 2025 2 15)) = Some 1739577600000"
proof -
  have v: "valid_date 2025 2 15" by (simp add: valid_date_def days_in_month_def InLeapYear_def)
  have u: "date_utc 2025 2 15 = 1739577600000"
    by (simp add: date_utc_def MakeDay_def DayFromYear_def InLeapYear_def month_start_def msPerDay_def)
  have "getReviewDate (updateReviewDate ''# Title'' (date_utc 2025 2 15)) = Some (date_utc 2025 2 15)"
    using v by (rule round_trip_four_digit_year) simp_all
  with v u show ?thesis by simp
qed

text \<open>
  The claim as stated fails for a year before 1000: \<open>formatDate\<close> writes the first of
  January 999 as \<^verbatim>\<open>999-01-01\<close>, and \<open>getReviewDate\<close> finds no review line in the result.
\<close>

theorem round_trip_counterexample:
  "valid_date 999 1 1
   \<and> getReviewDate (updateReviewDate ''# Title'' (date_utc 999 1 1)) \<noteq> Some (date_utc 999 1 1)"
  by code_simp

text \<open>
  A content that holds a review line holds a first one, so a content either has no
  review line or has a first review line with its ten characters.
\<close>

lemma first_review_line_exists:
  assumes "review_line content pre ds post"
  shows "\<exists>pre' ds' post'. first_review_line content pre' ds' post'"
proof (cases "marker_search True content")
  case None
  from no_match_no_review_line [OF None] assms show ?thesis by blast
next
  case (Some r)
  obtain p d q where "r = (p, d, q)" by (cases r)
  with Some have "marker_search True content = Some (p, d, q)" by simp
  then have "first_review_line content p d q" by (rule marker_search_review_line)
  then show ?thesis by blast
qed




text \<open>
  Claim C1. The claim asks \<open>getReviewDate\<close> to read the review date from a front-matter
  block as well as from the legacy line. The legacy line is read
  (\<open>getReviewDate_legacy_marker\<close>); a front-matter block is not: on the document of the
  repository's own test "getReviewDate extracts date from front matter" the function
  returns null.
\<close>

theorem getReviewDate_front_matter_unread:
  "getReviewDate (''---'' @ [LF] @ ''reviewed_at: 2025-10-15'' @ [LF] @ ''---'' @ [LF, LF] @ ''# Title'') = None"
  by code_simp

theorem getReviewDate_front_matter_unread_witness:
  "needsReview 0
     (getReviewDate (''---'' @ [LF] @ ''reviewed_at: 2025-10-15'' @ [LF] @ ''---'' @ [LF, LF] @ ''# Title''))"
  unfolding getReviewDate_front_matter_unread by (simp add: needsReview_def)

subsection \<open>Verifier\<close>

lemma frontMatter_group_Some:
  "frontMatter_group s = Some g \<Longrightarrow> \<exists>rest. s = g @ LF # ''---'' @ rest"
proof (induction s arbitrary: g)
  case Nil
  then show ?case by simp
next
  case (Cons c cs)
  show ?case
  proof (cases "take 4 (c # cs) = LF # ''---''")
    case True
    with Cons.prems have "g = []" by simp
    moreover have "c # cs = take 4 (c # cs) @ drop 4 (c # cs)" by (simp only: append_take_drop_id)
    ultimately show ?thesis using True by (metis append_Nil append_Cons)
  next
    case False
    with Cons.prems obtain g' where g: "frontMatter_group cs = Some g'" "g = c # g'"
      by (auto split: if_splits)
    from Cons.IH [OF g(1)] g(2) show ?thesis by auto
  qed
qed

lemma frontMatter_group_found:
  "frontMatter_group (g @ LF # ''---'' @ rest) \<noteq> None"
  by (induction g) auto

lemma frontMatterRegex_iff:
  "frontMatterRegex content \<noteq> None \<longleftrightarrow>
     (\<exists>g rest. content = ''---'' @ [LF] @ g @ [LF] @ ''---'' @ rest)"
proof
  assume "frontMatterRegex content \<noteq> None"
  then have t: "take 4 content = ''---'' @ [LF]" and "frontMatter_group (drop 4 content) \<noteq> None"
    by (auto simp: frontMatterRegex_def split: if_splits)
  then obtain g where "frontMatter_group (drop 4 content) = Some g" by auto
  then obtain rest where "drop 4 content = g @ LF # ''---'' @ rest"
    using frontMatter_group_Some by blast
  moreover have "content = take 4 content @ drop 4 content" by (simp only: append_take_drop_id)
  ultimately have "content = ''---'' @ [LF] @ g @ [LF] @ ''---'' @ rest" using t by simp
  then show "\<exists>g rest. content = ''---'' @ [LF] @ g @ [LF] @ ''---'' @ rest" by blast
next
  assume "\<exists>g rest. content = ''---'' @ [LF] @ g @ [LF] @ ''---'' @ rest"
  then obtain g rest where "content = ''---'' @ [LF] @ g @ [LF] @ ''---'' @ rest" by blast
  then show "frontMatterRegex content \<noteq> None"
    using frontMatter_group_found [of g rest] by (simp add: frontMatterRegex_def)
qed

text \<open>
  Claim C9, amended. \<open>parseFrontMatter\<close> reports the metadata as absent exactly when the
  content does not begin with three dashes and a line feed followed, somewhere later,
  by a line feed and three dashes; a content reported absent has no fields. So the
  block \<^verbatim>\<open>---\<close>, \<^verbatim>\<open>---\<close> with nothing between its delimiters (and no later line that
  starts with three dashes) reads like a document with no block. A block that is
  delimited but holds no key and value is reported present, with no fields.
\<close>

theorem front_matter_presence:
  "hasFrontMatter (parseFrontMatter content)
     = (\<exists>g rest. content = ''---'' @ [LF] @ g @ [LF] @ ''---'' @ rest)
   \<and> (\<not> hasFrontMatter (parseFrontMatter content) \<longrightarrow> frontMatter (parseFrontMatter content) = [])"
proof (intro conjI)
  have "hasFrontMatter (parseFrontMatter content) = (frontMatterRegex content \<noteq> None)"
    by (simp add: parseFrontMatter_def split: option.splits)
  then show "hasFrontMatter (parseFrontMatter content)
     = (\<exists>g rest. content = ''---'' @ [LF] @ g @ [LF] @ ''---'' @ rest)"
    by (simp only: frontMatterRegex_iff)
  show "\<not> hasFrontMatter (parseFrontMatter content) \<longrightarrow> frontMatter (parseFrontMatter content) = []"
    by (simp add: parseFrontMatter_def split: option.splits)
qed

theorem front_matter_presence_witness:
  "\<not> hasFrontMatter (parseFrontMatter (''---'' @ [LF] @ ''---'' @ [LF, LF] @ ''# Title''))
   \<and> frontMatter (parseFrontMatter (''---'' @ [LF] @ ''---'' @ [LF, LF] @ ''# Title'')) = []
   \<and> hasFrontMatter (parseFrontMatter (''---'' @ [LF] @ ''a: b'' @ [LF] @ ''---''))"
proof -
  let ?c = "''---'' @ [LF] @ ''---'' @ [LF, LF] @ ''# Title''"
  have a: "\<not> hasFrontMatter (parseFrontMatter ?c)" by code_simp
  have b: "frontMatter (parseFrontMatter ?c) = []"
    using a by (rule front_matter_presence [THEN conjunct2, THEN mp])
  have "\<exists>g rest. ''---'' @ [LF] @ ''a: b'' @ [LF] @ ''---'' = ''---'' @ [LF] @ g @ [LF] @ ''---'' @ rest"
    by (rule exI [of _ "''a: b''"], rule exI [of _ "[]"]) simp
  then have c: "hasFrontMatter (parseFrontMatter (''---'' @ [LF] @ ''a: b'' @ [LF] @ ''---''))"
    by (simp only: front_matter_presence [THEN conjunct1])
  from a b c show ?thesis by simp
qed

text \<open>
  The claim as stated fails for a delimited block with an empty line inside: it has no
  key and value, and it is reported present.
\<close>

theorem empty_block_counterexample:
  "hasFrontMatter (parseFrontMatter (''---'' @ [LF, LF] @ ''---'' @ [LF]))
   \<and> frontMatter (parseFrontMatter (''---'' @ [LF, LF] @ ''---'' @ [LF])) = []"
  by code_simp

lemma frontMatter_group_shortest:
  "frontMatter_group s = Some g \<Longrightarrow> s = g' @ LF # ''---'' @ rest' \<Longrightarrow> length g \<le> length g'"
proof (induction s arbitrary: g g')
  case Nil
  then show ?case by simp
next
  case (Cons c cs)
  show ?case
  proof (cases "take 4 (c # cs) = LF # ''---''")
    case True
    with Cons.prems(1) show ?thesis by simp
  next
    case False
    with Cons.prems(1) obtain g0 where g0: "frontMatter_group cs = Some g0" "g = c # g0"
      by (auto split: if_splits)
    show ?thesis
    proof (cases g')
      case Nil
      with Cons.prems(2) False show ?thesis by simp
    next
      case (Cons x g1)
      with Cons.prems(2) have "cs = g1 @ LF # ''---'' @ rest'" by simp
      from Cons.IH [OF g0(1) this] show ?thesis unfolding g0(2) Cons by simp
    qed
  qed
qed

lemma frontMatterRegex_block:
  assumes "frontMatterRegex content = Some g"
  shows "front_matter_block content g"
proof -
  from assms have t: "take 4 content = ''---'' @ [LF]"
    and gr: "frontMatter_group (drop 4 content) = Some g"
    by (auto simp: frontMatterRegex_def split: if_splits)
  from frontMatter_group_Some [OF gr] obtain rest where
    d: "drop 4 content = g @ LF # ''---'' @ rest" by blast
  have c: "content = take 4 content @ drop 4 content" by (simp only: append_take_drop_id)
  have "content = ''---'' @ [LF] @ g @ [LF] @ ''---'' @ rest"
    using c t d by simp
  moreover have "length g \<le> length g'"
    if "content = ''---'' @ [LF] @ g' @ [LF] @ ''---'' @ rest'" for g' rest'
  proof -
    from that have "drop 4 content = g' @ LF # ''---'' @ rest'" by simp
    with gr show ?thesis by (rule frontMatter_group_shortest)
  qed
  ultimately show ?thesis unfolding front_matter_block_def by blast
qed

lemma front_matter_block_regex:
  assumes "front_matter_block content g"
  shows "frontMatterRegex content = Some g"
proof -
  from assms obtain rest where c: "content = ''---'' @ [LF] @ g @ [LF] @ ''---'' @ rest"
    unfolding front_matter_block_def by blast
  then have "frontMatterRegex content \<noteq> None"
    using frontMatterRegex_iff [of content] by blast
  then obtain g1 where r: "frontMatterRegex content = Some g1" by auto
  then have b: "front_matter_block content g1" by (rule frontMatterRegex_block)
  then obtain rest1 where c1: "content = ''---'' @ [LF] @ g1 @ [LF] @ ''---'' @ rest1"
    unfolding front_matter_block_def by blast
  from assms c1 have "length g \<le> length g1" unfolding front_matter_block_def by blast
  moreover from b c have "length g1 \<le> length g" unfolding front_matter_block_def by blast
  ultimately have l: "length g1 = length g" by simp
  from c c1 have "g1 @ ([LF] @ ''---'' @ rest1) = g @ ([LF] @ ''---'' @ rest)" by simp
  with l have "g1 = g" by (metis append_eq_append_conv)
  with r show ?thesis by simp
qed

lemma has_front_matter_regex: "has_front_matter content \<longleftrightarrow> frontMatterRegex content \<noteq> None"
  unfolding has_front_matter_def by (simp only: frontMatterRegex_iff)

lemma indexOf_None: "indexOf c s = None \<longleftrightarrow> c \<notin> set s"
  by (induction s) auto

lemma indexOf_append: "c \<notin> set a \<Longrightarrow> indexOf c (a @ c # b) = Some (length a)"
  by (induction a) auto

lemma indexOf_Some:
  "indexOf c s = Some i \<Longrightarrow>
     s = take i s @ c # drop (i + 1) s \<and> c \<notin> set (take i s) \<and> i < length s"
proof (induction s arbitrary: i)
  case Nil
  then show ?case by simp
next
  case (Cons x xs)
  show ?case
  proof (cases "x = c")
    case True
    with Cons.prems show ?thesis by simp
  next
    case False
    with Cons.prems obtain j where j: "indexOf c xs = Some j" "i = Suc j" by auto
    from Cons.IH [OF j(1)] False show ?thesis unfolding j(2) by simp
  qed
qed

lemma line_field_parse:
  assumes "line_field line k v"
  shows "parse_line fm line = (if k = ''__proto__'' then fm else assign k v fm)"
proof -
  from assms obtain a b where l: "line = a @ CHR '':'' # b" and a: "a \<noteq> []" "CHR '':'' \<notin> set a"
    and kv: "k = trim a" "v = trim b" unfolding line_field_def by blast
  have "indexOf (CHR '':'') line = Some (length a)" unfolding l using a(2) by (rule indexOf_append)
  moreover have "take (length a) line = a" "drop (length a + 1) line = b" unfolding l by simp_all
  ultimately show ?thesis using a(1) kv by (simp add: parse_line_def Let_def)
qed

lemma no_line_field_parse:
  assumes "\<forall>k v. \<not> line_field line k v"
  shows "parse_line fm line = fm"
proof (cases "indexOf (CHR '':'') line")
  case None
  then show ?thesis by (simp add: parse_line_def)
next
  case (Some i)
  have "i = 0"
  proof (rule ccontr)
    assume "i \<noteq> 0"
    from indexOf_Some [OF Some]
    have "line = take i line @ CHR '':'' # drop (i + 1) line" "CHR '':'' \<notin> set (take i line)"
      "i < length line" by simp_all
    moreover from this(3) \<open>i \<noteq> 0\<close> have "take i line \<noteq> []" by (cases line) auto
    ultimately have "line_field line (trim (take i line)) (trim (drop (i + 1) line))"
      unfolding line_field_def by blast
    with assms show False by blast
  qed
  with Some show ?thesis by (simp add: parse_line_def)
qed

lemma line_field_unique:
  assumes "line_field line k v" and "line_field line k' v'"
  shows "k' = k \<and> v' = v"
proof -
  from assms(1) obtain a b where 1: "line = a @ CHR '':'' # b" "CHR '':'' \<notin> set a"
    "k = trim a" "v = trim b" unfolding line_field_def by blast
  from assms(2) obtain a' b' where 2: "line = a' @ CHR '':'' # b'" "CHR '':'' \<notin> set a'"
    "k' = trim a'" "v' = trim b'" unfolding line_field_def by blast
  have "indexOf (CHR '':'') line = Some (length a)" unfolding 1(1) using 1(2) by (rule indexOf_append)
  moreover have "indexOf (CHR '':'') line = Some (length a')"
    unfolding 2(1) using 2(2) by (rule indexOf_append)
  ultimately have "length a = length a'" by simp
  with 1(1) 2(1) have "a = a'" "b = b'" by (auto simp: append_eq_append_conv)
  with 1 2 show ?thesis by simp
qed

lemma map_of_assign: "map_of (assign k v fm) k' = (if k' = k then Some v else map_of fm k')"
  by (induction fm) auto

lemma parse_line_lookup:
  assumes "k \<noteq> ''__proto__''"
  shows "map_of (parse_line fm line) k
           = (if \<exists>v. line_field line k v then Some (THE v. line_field line k v) else map_of fm k)"
proof (cases "\<exists>k' v'. line_field line k' v'")
  case False
  then have "parse_line fm line = fm" by (simp add: no_line_field_parse)
  with False show ?thesis by auto
next
  case True
  then obtain k' v' where f: "line_field line k' v'" by blast
  note p = line_field_parse [OF f, of fm]
  show ?thesis
  proof (cases "k' = k")
    case True
    with f have "(THE v. line_field line k v) = v'"
      using line_field_unique by (intro the_equality) blast+
    with True f p assms show ?thesis by (auto simp: map_of_assign)
  next
    case False
    then have "\<not> (\<exists>v. line_field line k v)" using f line_field_unique by blast
    with False p show ?thesis by (auto simp: map_of_assign)
  qed
qed

lemma block_field_Cons:
  "block_field (l # ls) k v \<longleftrightarrow>
     block_field ls k v \<or> (line_field l k v \<and> (\<forall>x \<in> set ls. \<forall>v'. \<not> line_field x k v'))"
proof
  assume "block_field (l # ls) k v"
  then obtain pre line post where e: "l # ls = pre @ line # post" and f: "line_field line k v"
    and n: "\<forall>x \<in> set post. \<forall>v'. \<not> line_field x k v'" unfolding block_field_def by blast
  show "block_field ls k v \<or> (line_field l k v \<and> (\<forall>x \<in> set ls. \<forall>v'. \<not> line_field x k v'))"
  proof (cases pre)
    case Nil
    with e f n show ?thesis by simp
  next
    case (Cons x pre')
    with e have "ls = pre' @ line # post" by simp
    with f n have "block_field ls k v" unfolding block_field_def by blast
    then show ?thesis by simp
  qed
next
  assume "block_field ls k v \<or> (line_field l k v \<and> (\<forall>x \<in> set ls. \<forall>v'. \<not> line_field x k v'))"
  then show "block_field (l # ls) k v"
  proof
    assume "block_field ls k v"
    then obtain pre line post where "ls = pre @ line # post" "line_field line k v"
      "\<forall>x \<in> set post. \<forall>v'. \<not> line_field x k v'" unfolding block_field_def by blast
    then have "l # ls = (l # pre) @ line # post \<and> line_field line k v
                 \<and> (\<forall>x \<in> set post. \<forall>v'. \<not> line_field x k v')" by simp
    then show ?thesis unfolding block_field_def by blast
  next
    assume "line_field l k v \<and> (\<forall>x \<in> set ls. \<forall>v'. \<not> line_field x k v')"
    then have "l # ls = [] @ l # ls \<and> line_field l k v
                 \<and> (\<forall>x \<in> set ls. \<forall>v'. \<not> line_field x k v')" by simp
    then show ?thesis unfolding block_field_def by blast
  qed
qed

lemma block_field_unique_line:
  "block_field ls k v \<Longrightarrow> \<exists>x \<in> set ls. \<exists>v'. line_field x k v'"
  unfolding block_field_def by auto

lemma parse_lines_lookup:
  assumes "k \<noteq> ''__proto__''"
  shows "map_of (foldl parse_line fm ls) k = Some v \<longleftrightarrow>
           block_field ls k v
           \<or> (map_of fm k = Some v \<and> (\<forall>x \<in> set ls. \<forall>v'. \<not> line_field x k v'))"
proof (induction ls arbitrary: fm)
  case Nil
  show ?case by (simp add: block_field_def)
next
  case (Cons l ls)
  have "map_of (foldl parse_line fm (l # ls)) k = Some v \<longleftrightarrow>
          block_field ls k v
          \<or> (map_of (parse_line fm l) k = Some v \<and> (\<forall>x \<in> set ls. \<forall>v'. \<not> line_field x k v'))"
    by (simp add: Cons.IH)
  also have "\<dots> \<longleftrightarrow> block_field (l # ls) k v
          \<or> (map_of fm k = Some v \<and> (\<forall>x \<in> set (l # ls). \<forall>v'. \<not> line_field x k v'))"
  proof (cases "\<exists>u. line_field l k u")
    case True
    then obtain u where u: "line_field l k u" by blast
    then have "(THE v. line_field l k v) = u"
      using line_field_unique by (intro the_equality) blast+
    then have "map_of (parse_line fm l) k = Some u"
      using u by (auto simp: parse_line_lookup [OF assms])
    moreover have "line_field l k v \<longleftrightarrow> u = v" using u line_field_unique by blast
    ultimately show ?thesis using u unfolding block_field_Cons by auto
  next
    case False
    then have "map_of (parse_line fm l) k = map_of fm k"
      by (simp add: parse_line_lookup [OF assms])
    with False show ?thesis unfolding block_field_Cons by auto
  qed
  finally show ?case .
qed

lemma split_on_join_lines:
  "ls \<noteq> [] \<Longrightarrow> \<forall>l \<in> set ls. LF \<notin> set l \<Longrightarrow> split_on LF (join_lines ls) = ls"
proof (induction ls rule: join_lines.induct)
  case 1
  then show ?case by simp
next
  case (2 l)
  then show ?case by (simp add: split_on_no_sep)
next
  case (3 l m ls)
  then have "split_on LF (join_lines (m # ls)) = m # ls" by simp
  moreover have "LF \<notin> set l" using 3 by simp
  ultimately show ?case by (simp add: split_on_append)
qed

lemma join_lines_split_on:
  "split_on LF g \<noteq> [] \<and> join_lines (split_on LF g) = g \<and> (\<forall>l \<in> set (split_on LF g). LF \<notin> set l)"
proof (induction g)
  case Nil
  show ?case by simp
next
  case (Cons c g)
  then obtain w ws where s: "split_on LF g = w # ws" by (cases "split_on LF g") auto
  show ?case
  proof (cases "c = LF")
    case True
    with Cons s show ?thesis by simp
  next
    case False
    with Cons s show ?thesis by (cases ws) auto
  qed
qed

lemma reviewed_at_lookup:
  "map_of (frontMatter (parseFrontMatter content)) ''reviewed_at'' = Some v
     \<longleftrightarrow> reviewed_at_value content v"
proof
  assume a: "map_of (frontMatter (parseFrontMatter content)) ''reviewed_at'' = Some v"
  then obtain g where r: "frontMatterRegex content = Some g"
    by (cases "frontMatterRegex content") (auto simp: parseFrontMatter_def)
  with a have "map_of (foldl parse_line [] (split_on LF g)) ''reviewed_at'' = Some v"
    by (simp add: parseFrontMatter_def)
  then have "block_field (split_on LF g) ''reviewed_at'' v"
    by (simp add: parse_lines_lookup)
  with frontMatterRegex_block [OF r] join_lines_split_on [of g]
  show "reviewed_at_value content v" unfolding reviewed_at_value_def by metis
next
  assume "reviewed_at_value content v"
  then obtain g ls where b: "front_matter_block content g" and ls: "ls \<noteq> []" "g = join_lines ls"
    "\<forall>l \<in> set ls. LF \<notin> set l" and f: "block_field ls ''reviewed_at'' v"
    unfolding reviewed_at_value_def by blast
  from b have r: "frontMatterRegex content = Some g" by (rule front_matter_block_regex)
  have "split_on LF g = ls" unfolding ls(2) using ls(1,3) by (rule split_on_join_lines)
  with f have "map_of (foldl parse_line [] (split_on LF g)) ''reviewed_at'' = Some v"
    by (simp add: parse_lines_lookup)
  with r show "map_of (frontMatter (parseFrontMatter content)) ''reviewed_at'' = Some v"
    by (simp add: parseFrontMatter_def)
qed

lemma hasFrontMatter_shape: "hasFrontMatter (parseFrontMatter content) \<longleftrightarrow> has_front_matter content"
  unfolding has_front_matter_regex by (simp add: parseFrontMatter_def split: option.splits)

lemma check_file_diagnosis:
  "\<exists>d. diagnosis fs today p d
       \<and> check_file fs today (b, l) p = (b \<or> is_problem d, l @ [(p, d)])"
proof (cases "fs p")
  case None
  then have "diagnosis fs today p FileDeleted" by (simp add: diagnosis_def)
  moreover have "check_file fs today (b, l) p = (b \<or> is_problem FileDeleted, l @ [(p, FileDeleted)])"
    using None by (simp add: check_file_def is_problem_def)
  ultimately show ?thesis by blast
next
  case (Some c)
  define lk where "lk = map_of (frontMatter (parseFrontMatter c)) ''reviewed_at''"
  have rv: "reviewed_at_value c v \<longleftrightarrow> lk = Some v" for v
    unfolding lk_def by (simp only: reviewed_at_lookup)
  show ?thesis
  proof (cases "hasFrontMatter (parseFrontMatter c)")
    case False
    then have "diagnosis fs today p MissingFrontMatter"
      using Some by (simp add: diagnosis_def hasFrontMatter_shape)
    moreover have "check_file fs today (b, l) p
        = (b \<or> is_problem MissingFrontMatter, l @ [(p, MissingFrontMatter)])"
      using Some False by (simp add: check_file_def is_problem_def)
    ultimately show ?thesis by blast
  next
    case True
    then have h: "has_front_matter c" by (simp only: hasFrontMatter_shape)
    consider (missing) "lk = None \<or> lk = Some []"
      | (today) "lk = Some today" "today \<noteq> []"
      | (other) v where "lk = Some v" "v \<noteq> []" "v \<noteq> today"
      by (cases lk) auto
    then show ?thesis
    proof cases
      case missing
      then have "\<not> (\<exists>v. v \<noteq> [] \<and> reviewed_at_value c v)" unfolding rv by auto
      then have "diagnosis fs today p MissingReviewedAt"
        using Some h by (simp add: diagnosis_def)
      moreover have "check_file fs today (b, l) p
          = (b \<or> is_problem MissingReviewedAt, l @ [(p, MissingReviewedAt)])"
        using Some True missing
        by (auto simp: check_file_def is_problem_def lk_def Let_def split: option.splits)
      ultimately show ?thesis by blast
    next
      case today
      then have "\<exists>v. v \<noteq> [] \<and> reviewed_at_value c v" "reviewed_at_value c today"
        unfolding rv by auto
      then have "diagnosis fs today p ReviewedToday"
        using Some h by (simp add: diagnosis_def)
      moreover have "check_file fs today (b, l) p
          = (b \<or> is_problem ReviewedToday, l @ [(p, ReviewedToday)])"
        using Some True today
        by (auto simp: check_file_def is_problem_def lk_def Let_def split: option.splits)
      ultimately show ?thesis by blast
    next
      case other
      then have "\<exists>v. v \<noteq> [] \<and> reviewed_at_value c v" "\<not> reviewed_at_value c today"
        unfolding rv by auto
      then have "diagnosis fs today p StaleOrMismatchedDate"
        using Some h by (simp add: diagnosis_def)
      moreover have "check_file fs today (b, l) p
          = (b \<or> is_problem StaleOrMismatchedDate, l @ [(p, StaleOrMismatchedDate)])"
        using Some True other
        by (auto simp: check_file_def is_problem_def lk_def Let_def split: option.splits)
      ultimately show ?thesis by blast
    qed
  qed
qed

lemma check_loop_diagnosis:
  "\<exists>rs. foldl (check_file fs today) (b, l) paths
           = (b \<or> (\<exists>r \<in> set rs. is_problem (snd r)), l @ rs)
        \<and> list_all2 (\<lambda>p r. fst r = p \<and> diagnosis fs today p (snd r)) paths rs"
proof (induction paths arbitrary: b l)
  case Nil
  show ?case by simp
next
  case (Cons p ps)
  from check_file_diagnosis [of fs today p b l] obtain d where
    d: "diagnosis fs today p d"
    "check_file fs today (b, l) p = (b \<or> is_problem d, l @ [(p, d)])" by blast
  from Cons.IH [of "b \<or> is_problem d" "l @ [(p, d)]"] obtain rs where
    rs: "foldl (check_file fs today) (b \<or> is_problem d, l @ [(p, d)]) ps
           = ((b \<or> is_problem d) \<or> (\<exists>r \<in> set rs. is_problem (snd r)), (l @ [(p, d)]) @ rs)"
    "list_all2 (\<lambda>p r. fst r = p \<and> diagnosis fs today p (snd r)) ps rs" by blast
  have "foldl (check_file fs today) (b, l) (p # ps)
          = (b \<or> (\<exists>r \<in> set ((p, d) # rs). is_problem (snd r)), l @ (p, d) # rs)"
    using d(2) rs(1) by auto
  moreover have "list_all2 (\<lambda>p r. fst r = p \<and> diagnosis fs today p (snd r)) (p # ps) ((p, d) # rs)"
    using d(1) rs(2) by simp
  ultimately show ?case by blast
qed

lemma diagnosis_unique: "diagnosis fs today p d \<Longrightarrow> diagnosis fs today p d' \<Longrightarrow> d = d'"
  by (auto simp: diagnosis_def split: option.splits if_splits)

text \<open>
  Claim C6, amended. For every list of modified paths and every literal of today's
  date, the verifier reports the paths in their order, each with its diagnosis: a
  missing file is skipped with no problem, a file without front matter is
  \<open>MissingFrontMatter\<close>, a file whose block gives \<^verbatim>\<open>reviewed_at\<close> no value or an empty one
  is \<open>MissingReviewedAt\<close>, a file whose value (trimmed, compared as a string) is not
  today's literal is \<open>StaleOrMismatchedDate\<close>. The exit code is 0 or 1, and it is not
  0 exactly when some path was reported with a problem.
\<close>

theorem verifier_classification:
  assumes "check_modified fs today paths = (code, report)"
  shows "list_all2 (\<lambda>p r. fst r = p \<and> diagnosis fs today p (snd r)) paths report
         \<and> (code \<noteq> 0 \<longleftrightarrow> (\<exists>r \<in> set report. is_problem (snd r)))
         \<and> (code = 0 \<or> code = 1)"
proof (cases "paths = []")
  case True
  with assms show ?thesis by (auto simp: check_modified_def)
next
  case False
  from check_loop_diagnosis [of fs today False "[]" paths] obtain rs where
    rs: "foldl (check_file fs today) (False, []) paths
           = (\<exists>r \<in> set rs. is_problem (snd r), rs)"
    "list_all2 (\<lambda>p r. fst r = p \<and> diagnosis fs today p (snd r)) paths rs" by auto
  have h: "check_modified fs today paths
          = (if \<exists>r \<in> set rs. is_problem (snd r) then 1 else 0, rs)"
    using False rs(1) by (simp add: check_modified_def Let_def)
  define k :: int where "k = (if \<exists>r \<in> set rs. is_problem (snd r) then 1 else 0)"
  from h assms have "(code, report) = (k, rs)" by (simp only: k_def)
  then have r: "rs = report" and c0: "code = k" by simp_all
  from c0 have c: "code = (if \<exists>r \<in> set report. is_problem (snd r) then 1 else 0)"
    unfolding k_def r .
  from c have "code \<noteq> 0 \<longleftrightarrow> (\<exists>r \<in> set report. is_problem (snd r))"
    and "code = 0 \<or> code = 1" by (simp_all split: if_splits)
  with rs(2) r show ?thesis by simp
qed

theorem verifier_classification_witness:
  "check_modified example_files ''2025-06-01''
     [''docs/gone.md'', ''docs/plain.md'', ''docs/nofield.md'', ''docs/stale.md'', ''docs/today.md'']
     = (1, [(''docs/gone.md'', FileDeleted), (''docs/plain.md'', MissingFrontMatter),
            (''docs/nofield.md'', MissingReviewedAt), (''docs/stale.md'', StaleOrMismatchedDate),
            (''docs/today.md'', ReviewedToday)])
   \<and> diagnosis example_files ''2025-06-01'' ''docs/gone.md'' FileDeleted
   \<and> diagnosis example_files ''2025-06-01'' ''docs/plain.md'' MissingFrontMatter
   \<and> diagnosis example_files ''2025-06-01'' ''docs/nofield.md'' MissingReviewedAt
   \<and> diagnosis example_files ''2025-06-01'' ''docs/stale.md'' StaleOrMismatchedDate
   \<and> diagnosis example_files ''2025-06-01'' ''docs/today.md'' ReviewedToday
   \<and> check_modified example_files ''2025-06-01'' [''docs/gone.md'', ''docs/today.md'']
     = (0, [(''docs/gone.md'', FileDeleted), (''docs/today.md'', ReviewedToday)])"
proof -
  have h: "check_modified example_files ''2025-06-01''
     [''docs/gone.md'', ''docs/plain.md'', ''docs/nofield.md'', ''docs/stale.md'', ''docs/today.md'']
     = (1, [(''docs/gone.md'', FileDeleted), (''docs/plain.md'', MissingFrontMatter),
            (''docs/nofield.md'', MissingReviewedAt), (''docs/stale.md'', StaleOrMismatchedDate),
            (''docs/today.md'', ReviewedToday)])"
    by code_simp
  have k: "check_modified example_files ''2025-06-01'' [''docs/gone.md'', ''docs/today.md'']
     = (0, [(''docs/gone.md'', FileDeleted), (''docs/today.md'', ReviewedToday)])"
    by code_simp
  from verifier_classification [OF h]
  have "list_all2 (\<lambda>p r. fst r = p \<and> diagnosis example_files ''2025-06-01'' p (snd r))
     [''docs/gone.md'', ''docs/plain.md'', ''docs/nofield.md'', ''docs/stale.md'', ''docs/today.md'']
     [(''docs/gone.md'', FileDeleted), (''docs/plain.md'', MissingFrontMatter),
      (''docs/nofield.md'', MissingReviewedAt), (''docs/stale.md'', StaleOrMismatchedDate),
      (''docs/today.md'', ReviewedToday)]"
    by (rule conjunct1)
  then have "diagnosis example_files ''2025-06-01'' ''docs/gone.md'' FileDeleted
   \<and> diagnosis example_files ''2025-06-01'' ''docs/plain.md'' MissingFrontMatter
   \<and> diagnosis example_files ''2025-06-01'' ''docs/nofield.md'' MissingReviewedAt
   \<and> diagnosis example_files ''2025-06-01'' ''docs/stale.md'' StaleOrMismatchedDate
   \<and> diagnosis example_files ''2025-06-01'' ''docs/today.md'' ReviewedToday"
    by (simp only: list_all2_Cons list.simps fst_conv snd_conv simp_thms)
  with h k show ?thesis by (simp only: simp_thms)
qed

text \<open>
  The claim as stated fails for a \<^verbatim>\<open>reviewed_at\<close> field with nothing after its colon:
  the field is there, its value differs from today's literal, and the report is
  \<open>MissingReviewedAt\<close>, not \<open>StaleOrMismatchedDate\<close>.
\<close>

theorem empty_reviewed_at_counterexample:
  "reviewed_at_value (''---'' @ [LF] @ ''reviewed_at:'' @ [LF] @ ''---'' @ [LF]) []
   \<and> [] \<noteq> ''2025-06-01''
   \<and> check_modified [''docs/x.md'' \<mapsto> ''---'' @ [LF] @ ''reviewed_at:'' @ [LF] @ ''---'' @ [LF]]
       ''2025-06-01'' [''docs/x.md'']
     = (1, [(''docs/x.md'', MissingReviewedAt)])"
proof -
  have "map_of (frontMatter (parseFrontMatter (''---'' @ [LF] @ ''reviewed_at:'' @ [LF] @ ''---'' @ [LF])))
          ''reviewed_at'' = Some []"
    by code_simp
  then have "reviewed_at_value (''---'' @ [LF] @ ''reviewed_at:'' @ [LF] @ ''---'' @ [LF]) []"
    by (rule reviewed_at_lookup [THEN iffD1])
  moreover have "check_modified [''docs/x.md'' \<mapsto> ''---'' @ [LF] @ ''reviewed_at:'' @ [LF] @ ''---'' @ [LF]]
       ''2025-06-01'' [''docs/x.md'']
     = (1, [(''docs/x.md'', MissingReviewedAt)])"
    by code_simp
  ultimately show ?thesis by simp
qed

lemma check_review_date_main_run:
  "check_review_date_main fs (date_utc 2025 6 1)
     (Some (''docs/x.md'' @ [LF] @ ''src/a.js'' @ [LF] @ ''docs/gone.md'' @ [LF]))
   = check_modified fs ''2025-06-01'' [''docs/x.md'', ''docs/gone.md'']"
proof -
  have "formatDate (date_utc 2025 6 1) = ''2025-06-01''" by code_simp
  moreover have "getModifiedMarkdownFiles
      (Some (''docs/x.md'' @ [LF] @ ''src/a.js'' @ [LF] @ ''docs/gone.md'' @ [LF]))
      = [''docs/x.md'', ''docs/gone.md'']" by code_simp
  ultimately show ?thesis by (simp add: check_review_date_main_def)
qed

subsection \<open>Orchestrator\<close>





lemma scan_no_selection:
  "selectNextFile files li = None \<Longrightarrow>
     scan e files (Suc n) li w = (0, setOutput ''needs_review'' ''false'' w)"
  by simp

lemma scan_no_file:
  "selectNextFile files li = Some sel \<Longrightarrow> sel_file sel = None \<Longrightarrow>
     scan e files (Suc n) li w = (1, w)"
  by simp

lemma scan_unreadable:
  "selectNextFile files li = Some sel \<Longrightarrow> sel_file sel = Some file \<Longrightarrow>
   doc_files w file = None \<Longrightarrow> scan e files (Suc n) li w = (1, w)"
  by simp





















text \<open>
  Two scenarios of the specification, run on the example. With the first two documents
  fresh and the third stale, the scan passes the first two and proposes the third,
  and the cursor ends at 2. When an open pull request already holds the third
  document, the scan exhausts: \<^verbatim>\<open>needs_review=false\<close>, the cursor at 2, the document
  untouched.
\<close>

lemma scenario_third_document_stale:
  "fst (review_docs_main example_env
          (example_world\<lparr>doc_files := (doc_files example_world)(''a.md'' \<mapsto> ''reviewed at 2025-06-01'')\<rparr>)) = 0
   \<and> state_file (snd (review_docs_main example_env
          (example_world\<lparr>doc_files := (doc_files example_world)(''a.md'' \<mapsto> ''reviewed at 2025-06-01'')\<rparr>)))
       = Some 2
   \<and> outputs (snd (review_docs_main example_env
          (example_world\<lparr>doc_files := (doc_files example_world)(''a.md'' \<mapsto> ''reviewed at 2025-06-01'')\<rparr>)))
       = [(''needs_review'', ''true''), (''file_path'', ''docs/c.md''), (''assignee'', ''bob'')]"
  by code_simp

lemma scenario_duplicate_proposal:
  "fst (review_docs_main
          (example_env\<lparr>open_prs := Some [\<lparr>pr_number = 7, pr_files = Some [''docs/c.md'']\<rparr>]\<rparr>)
          (example_world\<lparr>doc_files := (doc_files example_world)(''a.md'' \<mapsto> ''reviewed at 2025-06-01'')\<rparr>)) = 0
   \<and> state_file (snd (review_docs_main
          (example_env\<lparr>open_prs := Some [\<lparr>pr_number = 7, pr_files = Some [''docs/c.md'']\<rparr>]\<rparr>)
          (example_world\<lparr>doc_files := (doc_files example_world)(''a.md'' \<mapsto> ''reviewed at 2025-06-01'')\<rparr>)))
       = Some 2
   \<and> outputs (snd (review_docs_main
          (example_env\<lparr>open_prs := Some [\<lparr>pr_number = 7, pr_files = Some [''docs/c.md'']\<rparr>]\<rparr>)
          (example_world\<lparr>doc_files := (doc_files example_world)(''a.md'' \<mapsto> ''reviewed at 2025-06-01'')\<rparr>)))
       = [(''needs_review'', ''false'')]
   \<and> doc_files (snd (review_docs_main
          (example_env\<lparr>open_prs := Some [\<lparr>pr_number = 7, pr_files = Some [''docs/c.md'']\<rparr>]\<rparr>)
          (example_world\<lparr>doc_files := (doc_files example_world)(''a.md'' \<mapsto> ''reviewed at 2025-06-01'')\<rparr>)))
        ''c.md'' = doc_files example_world ''c.md''"
  by code_simp

end
